theory Spec2Isabelle
  imports Main
begin

section \<open>Data model of \<open>src/app/inventory/d1-stores.ts\<close>\<close>

text \<open>
  Exceptions and rejected promises are values. \<open>TypeError\<close> is what JavaScript raises
  when a property of \<open>null\<close> or \<open>undefined\<close> is read; \<open>Rejected n\<close> is a failure of one
  of the collaborators that are imported by the file (the vendor API, the manifest, the
  item and store factories), \<open>n\<close> standing for its payload.
\<close>

datatype error = TypeError | Rejected nat

text \<open>
  A JavaScript \<open>Date\<close> is a time value in milliseconds since the epoch, or the Invalid
  Date (time value NaN) that \<open>new Date(x)\<close> gives for an unparseable \<open>x\<close>.
  \<open>d1 >= memo\<close> compares the time values; every comparison with NaN is false.
\<close>

datatype date = Date int | InvalidDate

fun date_ge :: "date \<Rightarrow> date \<Rightarrow> bool" where
  "date_ge (Date a) (Date b) = (b \<le> a)"
| "date_ge _ _ = False"

definition epoch :: date where
  "epoch = Date 0"

text \<open>
  A raw store record of the vendor API, as far as this file reads it: \<open>raw.id\<close>, the date
  \<open>new Date(raw.character.base.characterBase.dateLastPlayed)\<close>, and the payload that only
  the factories look at. An entry of the raw list may be \<open>null\<close>: that is \<open>None\<close>.
\<close>

record rawStore =
  rawId :: string
  dateLastPlayed :: date
  rawItems :: "nat list"

text \<open>
  A bucket of the catalog (\<open>InventoryBuckets\<close>): its hash, the \<open>accountWide\<close> flag and
  the optional \<open>vaultBucket\<close> it is aggregated under. The catalog itself is the list
  \<open>Object.values(buckets.byType)\<close>, in the enumeration order of that object.
\<close>

datatype bucket = Bucket (hash: int) (accountWide: bool) (vaultBucket: "bucket option")

type_synonym InventoryBuckets = "bucket list"

record D1Item =
  itemId :: nat
  location :: bucket

record vaultCount =
  count :: nat
  bucket :: bucket

text \<open>
  A store, as far as \<open>processStore\<close> touches it. \<open>current\<close> stands for what the character
  factory derives from \<open>lastPlayedDate\<close>. \<open>buckets\<close> and \<open>vaultCounts\<close> are JavaScript
  objects keyed by a hash: maps.
\<close>

record D1Store =
  storeId :: string
  isVault :: bool
  current :: bool
  items :: "D1Item list"
  buckets :: "int \<rightharpoonup> D1Item list"
  vaultCounts :: "int \<rightharpoonup> vaultCount"

type_synonym currencies = "nat list"

type_synonym D1ManifestDefinitions = nat

section \<open>\<open>findLastPlayedDate\<close>\<close>

text \<open>
  \<open>Array.prototype.reduce\<close> and \<open>forEach\<close> with a callback that may throw: the first
  exception ends the loop.
\<close>

fun reduceE :: "('a \<Rightarrow> 'b \<Rightarrow> error + 'a) \<Rightarrow> 'b list \<Rightarrow> 'a \<Rightarrow> error + 'a" where
  "reduceE f [] memo = Inr memo"
| "reduceE f (x # xs) memo =
     (case f memo x of Inl e \<Rightarrow> Inl e | Inr memo' \<Rightarrow> reduceE f xs memo')"

text \<open>
  The callback of the reduction (lines 237 to 245). Reading \<open>rawStore.id\<close> of a \<open>null\<close>
  entry raises a TypeError. \<open>memo\<close> is a \<open>Date\<close> object, hence truthy, so of
  \<open>memo ? (d1 >= memo ? d1 : memo) : d1\<close> only the first branch is ever taken.
\<close>

fun lastPlayedStep :: "date \<Rightarrow> rawStore option \<Rightarrow> error + date" where
  "lastPlayedStep memo None = Inl TypeError"
| "lastPlayedStep memo (Some rawStore) =
     (if rawId rawStore = ''vault'' then Inr memo
      else (let d1 = dateLastPlayed rawStore
            in Inr (if date_ge d1 memo then d1 else memo)))"

definition findLastPlayedDate :: "rawStore option list \<Rightarrow> error + date" where
  "findLastPlayedDate rawStores = reduceE lastPlayedStep rawStores (Date 0)"

text \<open>The time values of the character records of a raw list (Invalid Dates have none).\<close>

fun charTimes :: "rawStore option list \<Rightarrow> int list" where
  "charTimes [] = []"
| "charTimes (None # rs) = charTimes rs"
| "charTimes (Some r # rs) =
     (if rawId r = ''vault'' then charTimes rs
      else (case dateLastPlayed r of Date t \<Rightarrow> t # charTimes rs | InvalidDate \<Rightarrow> charTimes rs))"

definition isVaultRaw :: "rawStore option \<Rightarrow> bool" where
  "isVaultRaw x = (case x of None \<Rightarrow> False | Some r \<Rightarrow> rawId r = ''vault'')"

section \<open>\<open>processStore\<close>\<close>

text \<open>
  The functions of other modules that the file calls; their code is not part of it, so
  they are parameters. The store factories (\<open>makeVault\<close>, \<open>makeCharacter\<close>) take the
  arguments the file passes them, return a store and its raw items and mutate the shared
  \<open>currencies\<close> array, which the model hands back; they may throw. \<open>processItems\<close>
  returns a promise of the items: here its outcome, a rejection or the items. The other
  fields are the outcomes of the thunks and selectors that \<open>loadStores\<close> awaits or reads:
  \<open>getPlatforms\<close> is the account that \<open>currentAccountSelector\<close> sees once
  \<open>dispatch(getPlatforms())\<close> has completed, \<open>bucketsSelector\<close> is the catalog
  \<open>Object.values(buckets.byType)\<close>, \<open>reviewsEnabled\<close> is the feature flag.
\<close>

type_synonym DestinyAccount = nat

record collaborators =
  makeVault :: "rawStore \<Rightarrow> currencies \<Rightarrow> error + (D1Store \<times> nat list \<times> currencies)"
  makeCharacter :: "rawStore \<Rightarrow> D1ManifestDefinitions \<Rightarrow> date \<Rightarrow> currencies
                    \<Rightarrow> error + (D1Store \<times> nat list \<times> currencies)"
  processItems :: "D1Store \<Rightarrow> nat list \<Rightarrow> D1ManifestDefinitions \<Rightarrow> InventoryBuckets
                    \<Rightarrow> error + D1Item list"
  getPlatforms :: "error + DestinyAccount option"
  getDefinitions :: "error + D1ManifestDefinitions"
  loadNewItems :: "DestinyAccount \<Rightarrow> error + unit"
  getStores :: "DestinyAccount \<Rightarrow> error + rawStore option list"
  bucketsSelector :: InventoryBuckets
  reviewsEnabled :: bool

text \<open>
  \<open>_.groupBy(items, (i) => i.location.hash)\<close>: a key for every hash that some item is
  located at, holding those items in their order.
\<close>

definition groupBy :: "D1Item list \<Rightarrow> (int \<rightharpoonup> D1Item list)" where
  "groupBy its =
     (\<lambda>h. (let xs = filter (\<lambda>i. hash (location i) = h) its
            in if xs = [] then None else Some xs))"

text \<open>
  Lines 197 to 201: every bucket of the catalog whose hash is no key yet gets the empty
  list (an array, also an empty one, is truthy; a missing key reads as \<open>undefined\<close>).
\<close>

definition fillMissing :: "InventoryBuckets \<Rightarrow> (int \<rightharpoonup> D1Item list) \<Rightarrow> (int \<rightharpoonup> D1Item list)" where
  "fillMissing catalog m =
     fold (\<lambda>b m'. if m' (hash b) = None then m'(hash b \<mapsto> []) else m') catalog m"

definition vaultBucketOrder :: "int list" where
  "vaultBucketOrder = [4046403665, 3003523923, 138197802]"

text \<open>\<open>Array.prototype.indexOf\<close>: the first index of the element, or \<open>-1\<close>.\<close>

fun indexOf :: "int list \<Rightarrow> int \<Rightarrow> int" where
  "indexOf [] x = -1"
| "indexOf (y # ys) x =
     (if y = x then 0 else (let i = indexOf ys x in if i < 0 then -1 else i + 1))"

text \<open>
  Line 213: the buckets of the catalog that have a \<open>vaultBucket\<close>, each paired with it
  (what \<open>bucket.vaultBucket!\<close> reads after the filter).
\<close>

fun withVaultBucket :: "InventoryBuckets \<Rightarrow> (bucket \<times> bucket) list" where
  "withVaultBucket [] = []"
| "withVaultBucket (b # bs) =
     (case vaultBucket b of None \<Rightarrow> withVaultBucket bs
      | Some vb \<Rightarrow> (b, vb) # withVaultBucket bs)"

definition orderKey :: "bucket \<times> bucket \<Rightarrow> int" where
  "orderKey p = indexOf vaultBucketOrder (hash (snd p))"

text \<open>Lines 212 to 215: \<open>_.sortBy\<close> is a stable sort, ascending in the key.\<close>

definition sortedVaultBuckets :: "InventoryBuckets \<Rightarrow> (bucket \<times> bucket) list" where
  "sortedVaultBuckets catalog = sort_key orderKey (withVaultBucket catalog)"

text \<open>
  Lines 216 to 221, the body of the \<open>forEach\<close>. \<open>store.buckets[bucket.hash].length\<close>
  raises a TypeError when the key is missing.
\<close>

definition countStep ::
  "(int \<rightharpoonup> D1Item list) \<Rightarrow> (int \<rightharpoonup> vaultCount) \<Rightarrow> bucket \<times> bucket \<Rightarrow> error + (int \<rightharpoonup> vaultCount)" where
  "countStep storeBuckets vc p =
     (let b = fst p; vaultBucketId = hash (snd p);
          entry = (case vc vaultBucketId of
                     Some e \<Rightarrow> e
                   | None \<Rightarrow> \<lparr>count = 0, bucket = (if accountWide b then b else snd p)\<rparr>)
      in case storeBuckets (hash b) of
           None \<Rightarrow> Inl TypeError
         | Some xs \<Rightarrow> Inr (vc(vaultBucketId \<mapsto> entry\<lparr>count := count entry + length xs\<rparr>)))"

text \<open>Lines 190 to 226: the callback that runs once \<open>processItems\<close> has resolved.\<close>

definition processStore_then :: "D1Store \<Rightarrow> InventoryBuckets \<Rightarrow> D1Item list \<Rightarrow> error + D1Store" where
  "processStore_then store catalog its =
     (let store1 = store\<lparr>items := its, buckets := fillMissing catalog (groupBy its)\<rparr>
      in if isVault store1
         then (case reduceE (countStep (buckets store1)) (sortedVaultBuckets catalog) Map.empty of
                 Inl e \<Rightarrow> Inl e
               | Inr vc \<Rightarrow> Inr (store1\<lparr>vaultCounts := vc\<rparr>))
         else Inr store1)"

text \<open>
  \<open>processStore\<close> (lines 167 to 227). The result is \<open>Inl e\<close> when a factory throws,
  otherwise what is returned and the \<open>currencies\<close> as the factory left them: \<open>None\<close> is
  \<open>undefined\<close>, \<open>Some p\<close> a promise with its outcome \<open>p\<close>, rejected (\<open>Inl\<close>) or
  resolved with the store.
\<close>

definition processStore ::
  "collaborators \<Rightarrow> rawStore option \<Rightarrow> D1ManifestDefinitions \<Rightarrow> InventoryBuckets \<Rightarrow> currencies \<Rightarrow> date
   \<Rightarrow> error + ((error + D1Store) option \<times> currencies)" where
  "processStore I raw defs catalog cur lastPlayedDate =
     (case raw of
        None \<Rightarrow> Inr (None, cur)
      | Some r \<Rightarrow>
          (case (if rawId r = ''vault'' then makeVault I r cur
                 else makeCharacter I r defs lastPlayedDate cur) of
             Inl e \<Rightarrow> Inl e
           | Inr (store, rawIts, cur') \<Rightarrow>
               Inr (Some (case processItems I store rawIts defs catalog of
                            Inl e \<Rightarrow> Inl e
                          | Inr its \<Rightarrow> processStore_then store catalog its), cur')))"

section \<open>\<open>loadStores\<close>\<close>

text \<open>
  \<open>rawStores.map((raw) => processStore(...))\<close> (lines 123 to 125): the calls run in list
  order on the one \<open>currencies\<close> array, and a throw ends the map.
\<close>

fun mapProcessStore ::
  "collaborators \<Rightarrow> rawStore option list \<Rightarrow> D1ManifestDefinitions \<Rightarrow> InventoryBuckets \<Rightarrow> currencies \<Rightarrow> date
   \<Rightarrow> error + (error + D1Store) option list" where
  "mapProcessStore I [] defs catalog cur d = Inr []"
| "mapProcessStore I (raw # rs) defs catalog cur d =
     (case processStore I raw defs catalog cur d of
        Inl e \<Rightarrow> Inl e
      | Inr (p, cur') \<Rightarrow>
          (case mapProcessStore I rs defs catalog cur' d of
             Inl e \<Rightarrow> Inl e
           | Inr ps \<Rightarrow> Inr (p # ps)))"

text \<open>\<open>_.compact\<close> drops the falsy entries: here the \<open>undefined\<close> ones.\<close>

fun compact :: "'a option list \<Rightarrow> 'a list" where
  "compact [] = []"
| "compact (None # xs) = compact xs"
| "compact (Some x # xs) = x # compact xs"

text \<open>
  \<open>await Promise.all(ps)\<close>: the values in order, or an exception when a promise rejects.
  Which rejection is thrown when several reject depends on the timing; the model takes
  the first in list order.
\<close>

fun promiseAll :: "(error + 'a) list \<Rightarrow> error + 'a list" where
  "promiseAll [] = Inr []"
| "promiseAll (Inl e # ps) = Inl e"
| "promiseAll (Inr v # ps) = (case promiseAll ps of Inl e \<Rightarrow> Inl e | Inr vs \<Rightarrow> Inr (v # vs))"

text \<open>
  The application state the cycle reads (\<open>currentAccountSelector\<close>, \<open>storesSelector\<close>)
  and, in order, the calls it makes that are seen from outside. Of the actions it
  dispatches only \<open>update\<close> sets the published store set.
\<close>

datatype effect =
    ResetIdTracker
  | FetchRatings "D1Store list"
  | CleanInfos "D1Store list"
  | SetNumCharacters int
  | Update "D1Store list"
  | ConsoleError error
  | ReportException error
  | ShowNotification error
  | DispatchError error

record appState =
  currentAccount :: "DestinyAccount option"
  stores :: "D1Store list"
  effects :: "effect list"

definition emit :: "effect list \<Rightarrow> appState \<Rightarrow> appState" where
  "emit es st = st\<lparr>effects := effects st @ es\<rparr>"

text \<open>Lines 100 to 107: the account, looked up again after \<open>getPlatforms\<close> when there is none.\<close>

definition resolveAccount :: "collaborators \<Rightarrow> appState \<Rightarrow> error + (DestinyAccount option \<times> appState)" where
  "resolveAccount I st =
     (case currentAccount st of
        Some account \<Rightarrow> Inr (Some account, st)
      | None \<Rightarrow>
          (case getPlatforms I of
             Inl e \<Rightarrow> Inl e
           | Inr account \<Rightarrow> Inr (account, st\<lparr>currentAccount := account\<rparr>)))"

text \<open>
  Lines 110 to 127: from the three fetches to the processed stores. As for \<open>promiseAll\<close>,
  of several fetches that reject the model reports the first in the order of the array.
\<close>

definition fetchAndProcess :: "collaborators \<Rightarrow> DestinyAccount \<Rightarrow> error + D1Store list" where
  "fetchAndProcess I account =
     (case getDefinitions I of
        Inl e \<Rightarrow> Inl e
      | Inr defs \<Rightarrow>
     (case loadNewItems I account of
        Inl e \<Rightarrow> Inl e
      | Inr _ \<Rightarrow>
     (case getStores I account of
        Inl e \<Rightarrow> Inl e
      | Inr rawStores \<Rightarrow>
     (case findLastPlayedDate rawStores of
        Inl e \<Rightarrow> Inl e
      | Inr lastPlayedDate \<Rightarrow>
     (case mapProcessStore I rawStores defs (bucketsSelector I) [] lastPlayedDate of
        Inl e \<Rightarrow> Inl e
      | Inr ps \<Rightarrow> promiseAll (compact ps))))))"

text \<open>Lines 129 to 142: what a cycle does with its stores. \<open>update\<close> publishes them.\<close>

definition publish :: "collaborators \<Rightarrow> D1Store list \<Rightarrow> appState \<Rightarrow> appState" where
  "publish I ss st =
     (emit ((if reviewsEnabled I then [FetchRatings ss] else [])
            @ [CleanInfos ss, SetNumCharacters (int (length ss) - 1), Update ss]) st)
       \<lparr>stores := ss\<rparr>"

text \<open>The body of the \<open>try\<close>: an exception (\<open>Inl\<close>) or the value returned, and the state.\<close>

definition loadStores_try :: "collaborators \<Rightarrow> appState \<Rightarrow> (error + D1Store list option) \<times> appState" where
  "loadStores_try I st =
     (case resolveAccount I st of
        Inl e \<Rightarrow> (Inl e, st)
      | Inr (None, st1) \<Rightarrow> (Inr None, st1)
      | Inr (Some account, st1) \<Rightarrow>
          (let st2 = emit [ResetIdTracker] st1
           in case fetchAndProcess I account of
                Inl e \<Rightarrow> (Inl e, st2)
              | Inr ss \<Rightarrow> (Inr (Some ss), publish I ss st2)))"

text \<open>The \<open>catch\<close> (lines 143 to 157).\<close>

definition loadStores_catch :: "error \<Rightarrow> appState \<Rightarrow> D1Store list option \<times> appState" where
  "loadStores_catch e st =
     (let st1 = emit [ConsoleError e, ReportException e] st
      in (None, if length (stores st1) > 0 then emit [ShowNotification e] st1
                else emit [DispatchError e] st1))"

text \<open>One load cycle: what the promise of \<open>loadStores\<close> resolves with, and the state after.\<close>

definition loadStores :: "collaborators \<Rightarrow> appState \<Rightarrow> D1Store list option \<times> appState" where
  "loadStores I st =
     (case loadStores_try I st of
        (Inr r, st') \<Rightarrow> (r, st')
      | (Inl e, st') \<Rightarrow> loadStores_catch e st')"

section \<open>The stores stream (\<open>StoreService\<close>)\<close>

text \<open>
  The service (lines 29 to 90) is a composition of RxJS operators; the model is the state
  that composition holds, and one function for each thing that can happen to it.

  A load cycle resolves with the stores or with \<open>undefined\<close>. To tell one value of the
  stream from another, each carries the number of the run of \<open>loadStores\<close> that produced
  it, counting from 0 in the order in which the runs were started.
\<close>

type_synonym result = "D1Store list option"

type_synonym emission = "nat \<times> result"

text \<open>
  A promise returned by \<open>reloadStores\<close>: \<open>storesStream.pipe(take(2)).toPromise()\<close>.
  \<open>taken\<close> counts the values that \<open>take(2)\<close> has let through, and \<open>resolved\<close> is the value
  the promise resolved with. Three fields record the moment of the call and are never
  changed after it: how many runs had been started (\<open>calledAt\<close>), how many values the
  stream had emitted (\<open>emittedBefore\<close>), and the value in the replay buffer (\<open>cached\<close>).
\<close>

record promise =
  calledAt :: nat
  emittedBefore :: nat
  cached :: "emission option"
  taken :: nat
  resolved :: "emission option"

text \<open>
  \<^item> \<open>accountStream\<close>: the value of the \<open>BehaviorSubject\<close> (line 33), \<open>null\<close> at first.
  \<^item> \<open>connected\<close>: \<open>storesStream.connect()\<close> has subscribed the pipeline of lines 40 to 47
    to its sources; \<open>connections\<close> counts how often that has happened.
  \<^item> \<open>triggers\<close>: for every run of \<open>loadStores\<close> started by the outer \<open>switchMap\<close>
    (line 45), the account value that the merged source emitted; run \<open>k\<close> is entry \<open>k\<close>.
  \<^item> \<open>inner\<close>: the run whose promise the outer \<open>switchMap\<close> is subscribed to.
  \<^item> \<open>replay\<close>: the buffer of \<open>publishReplay(1)\<close>; \<open>emitted\<close> counts the values emitted.
  \<^item> \<open>promises\<close>: the promises handed out by \<open>reloadStores\<close>, in the order of the calls.
\<close>

record service =
  accountStream :: "DestinyAccount option"
  connected :: bool
  connections :: nat
  triggers :: "DestinyAccount option list"
  inner :: "nat option"
  replay :: "emission option"
  emitted :: nat
  promises :: "promise list"

definition StoreService :: service where
  "StoreService =
     \<lparr>accountStream = None, connected = False, connections = 0, triggers = [],
      inner = None, replay = None, emitted = 0, promises = []\<rparr>"

text \<open>
  Line 45: a value reaches the outer \<open>switchMap\<close>. It unsubscribes from the promise of
  the run before, calls \<open>loadStores\<close> (the value itself is not passed on) and subscribes
  to the new promise.
\<close>

definition switchMapLoad :: "DestinyAccount option \<Rightarrow> service \<Rightarrow> service" where
  "switchMapLoad a s = s\<lparr>triggers := triggers s @ [a], inner := Some (length (triggers s))\<rparr>"

text \<open>
  \<open>accountStream.next(account)\<close>: the subject keeps the value and hands it to its
  subscriber, the pipeline, which is subscribed once the stream is connected.
\<close>

definition accountStream_next :: "DestinyAccount \<Rightarrow> service \<Rightarrow> service" where
  "accountStream_next a s =
     (let s1 = s\<lparr>accountStream := Some a\<rparr>
      in if connected s1 then switchMapLoad (Some a) s1 else s1)"

text \<open>
  \<open>storesStream.connect()\<close>: the first call subscribes the pipeline to \<open>accountStream\<close>,
  which emits its current value at once, and to \<open>forceReloadTrigger\<close>; a later call
  returns the connection that exists.
\<close>

definition storesStream_connect :: "service \<Rightarrow> service" where
  "storesStream_connect s =
     (if connected s then s
      else switchMapLoad (accountStream s)
             (s\<lparr>connected := True, connections := connections s + 1\<rparr>))"

text \<open>
  \<open>forceReloadTrigger.next()\<close> (line 43): a \<open>Subject\<close> without subscriber drops the signal;
  once connected, the inner \<open>switchMap\<close> takes the current value of \<open>accountStream\<close>
  (\<open>take(1)\<close> of a \<open>BehaviorSubject\<close>) and the merged source emits it.
\<close>

definition forceReloadTrigger_next :: "service \<Rightarrow> service" where
  "forceReloadTrigger_next s =
     (if connected s then switchMapLoad (accountStream s) s else s)"

text \<open>
  Line 86: subscribing to \<open>storesStream\<close> is subscribing to the replay subject, which
  hands over the buffered value, when it has one, at once: the first of the two values.
\<close>

definition take2_toPromise :: "service \<Rightarrow> service" where
  "take2_toPromise s =
     s\<lparr>promises := promises s @
          [\<lparr>calledAt = length (triggers s), emittedBefore = emitted s, cached = replay s,
            taken = (case replay s of None \<Rightarrow> 0 | Some v \<Rightarrow> 1), resolved = None\<rparr>]\<rparr>"

text \<open>Lines 68 to 74 and 80 to 89.\<close>

definition getStoresStream :: "DestinyAccount \<Rightarrow> service \<Rightarrow> service" where
  "getStoresStream account s = storesStream_connect (accountStream_next account s)"

definition reloadStores :: "service \<Rightarrow> service" where
  "reloadStores s = forceReloadTrigger_next (take2_toPromise s)"

text \<open>
  A value of the stream reaches a promise: \<open>take(2)\<close> completes with the second value,
  and \<open>toPromise\<close> resolves with the last value when the stream completes.
\<close>

definition deliver :: "emission \<Rightarrow> promise \<Rightarrow> promise" where
  "deliver v p =
     (case resolved p of
        Some w \<Rightarrow> p
      | None \<Rightarrow> if taken p + 1 < 2 then p\<lparr>taken := taken p + 1\<rparr>
                else p\<lparr>taken := taken p + 1, resolved := Some v\<rparr>)"

text \<open>
  The promise of run \<open>k\<close> resolves with \<open>r\<close> (by claim C1 it never rejects). When the
  outer \<open>switchMap\<close> is still subscribed to it, the stream emits the value: the replay
  subject buffers it and hands it to its subscribers. Otherwise the value is dropped.
\<close>

definition resolves :: "nat \<Rightarrow> result \<Rightarrow> service \<Rightarrow> service" where
  "resolves k r s =
     (if inner s = Some k
      then s\<lparr>inner := None, replay := Some (k, r), emitted := emitted s + 1,
             promises := map (deliver (k, r)) (promises s)\<rparr>
      else s)"

text \<open>What happens to the service, and a history from its creation.\<close>

datatype event = GetStoresStream DestinyAccount | ReloadStores | Resolves nat result

fun step :: "event \<Rightarrow> service \<Rightarrow> service" where
  "step (GetStoresStream account) s = getStoresStream account s"
| "step ReloadStores s = reloadStores s"
| "step (Resolves k r) s = resolves k r s"

definition run :: "event list \<Rightarrow> service" where
  "run evs = fold step evs StoreService"

section \<open>Example inputs\<close>

text \<open>Raw records: a vault, two characters, and a character last played before 1970.\<close>

definition vaultRaw :: rawStore where
  "vaultRaw = \<lparr>rawId = ''vault'', dateLastPlayed = InvalidDate, rawItems = [1, 2]\<rparr>"

definition charA :: rawStore where
  "charA = \<lparr>rawId = ''2305843009'', dateLastPlayed = Date 10, rawItems = [0, 0, 1]\<rparr>"

definition charB :: rawStore where
  "charB = \<lparr>rawId = ''2305843010'', dateLastPlayed = Date 20, rawItems = []\<rparr>"

definition charBeforeEpoch :: rawStore where
  "charBeforeEpoch = \<lparr>rawId = ''2305843011'', dateLastPlayed = Date (- 5), rawItems = []\<rparr>"

text \<open>
  A catalog: two weapon buckets (the first account wide) and a helmet bucket with their
  vault buckets, a bucket whose vault bucket is none of the three of \<open>vaultBucketOrder\<close>,
  and a bucket without a vault bucket. \<open>unknownBucket\<close> is in no catalog.
\<close>

definition weaponsVault :: bucket where
  "weaponsVault = Bucket 4046403665 False None"

definition armorVault :: bucket where
  "armorVault = Bucket 3003523923 False None"

definition otherVault :: bucket where
  "otherVault = Bucket 42 False None"

definition primaryBucket :: bucket where
  "primaryBucket = Bucket 1498876634 False (Some weaponsVault)"

definition specialBucket :: bucket where
  "specialBucket = Bucket 2465295065 True (Some weaponsVault)"

definition helmetBucket :: bucket where
  "helmetBucket = Bucket 3448274439 False (Some armorVault)"

definition otherBucket :: bucket where
  "otherBucket = Bucket 7 False (Some otherVault)"

definition plainBucket :: bucket where
  "plainBucket = Bucket 9 False None"

definition unknownBucket :: bucket where
  "unknownBucket = Bucket (- 1) False None"

definition exampleCatalog :: InventoryBuckets where
  "exampleCatalog = [specialBucket, primaryBucket, helmetBucket, otherBucket, plainBucket]"

text \<open>
  Collaborators for the examples: the factories make an empty store named after the raw
  record (a character is \<open>current\<close> when \<open>lastPlayedDate\<close> is its own date), and a raw item
  \<open>n\<close> becomes an item located in the \<open>n\<close>-th bucket of the catalog, or in
  \<open>unknownBucket\<close> when there is none.
\<close>

definition newStore :: "string \<Rightarrow> bool \<Rightarrow> bool \<Rightarrow> D1Store" where
  "newStore sid v c =
     \<lparr>storeId = sid, isVault = v, current = c, items = [],
      buckets = Map.empty, vaultCounts = Map.empty\<rparr>"

definition locate :: "InventoryBuckets \<Rightarrow> nat \<Rightarrow> bucket" where
  "locate catalog n = (if n < length catalog then catalog ! n else unknownBucket)"

definition exampleCollaborators :: collaborators where
  "exampleCollaborators =
     \<lparr>makeVault = (\<lambda>r cur. Inr (newStore (rawId r) True False, rawItems r, cur)),
      makeCharacter = (\<lambda>r defs d cur.
         Inr (newStore (rawId r) False (dateLastPlayed r = d), rawItems r, cur)),
      processItems = (\<lambda>store rawIts defs catalog.
         Inr (map (\<lambda>n. \<lparr>itemId = n, location = locate catalog n\<rparr>) rawIts)),
      getPlatforms = Inr None,
      getDefinitions = Inr 0,
      loadNewItems = (\<lambda>account. Inr ()),
      getStores = (\<lambda>account. Inr [Some vaultRaw, Some charA, Some charB]),
      bucketsSelector = exampleCatalog,
      reviewsEnabled = False\<rparr>"

text \<open>
  Application states with and without a store set published before, and collaborators
  whose raw-store fetch rejects, or returns a list with a \<open>null\<close> entry.
\<close>

definition signedIn :: appState where
  "signedIn = \<lparr>currentAccount = Some 1, stores = [], effects = []\<rparr>"

definition loadedBefore :: appState where
  "loadedBefore = \<lparr>currentAccount = Some 1, stores = [newStore ''vault'' True False], effects = []\<rparr>"

definition fetchRejects :: collaborators where
  "fetchRejects = exampleCollaborators\<lparr>getStores := (\<lambda>account. Inl (Rejected 503))\<rparr>"

definition nullRecord :: collaborators where
  "nullRecord = exampleCollaborators\<lparr>getStores := (\<lambda>account. Inr [None, Some vaultRaw])\<rparr>"

text \<open>
  Histories of the service: a reload after the first result has arrived; a reload while
  the first load is still running, followed by the results of both runs; and a later
  load for another account.
\<close>

definition exampleTrace :: "event list" where
  "exampleTrace = [GetStoresStream 1, Resolves 0 (Some []), ReloadStores, Resolves 1 None]"

definition earlyReloadTrace :: "event list" where
  "earlyReloadTrace = [GetStoresStream 1, ReloadStores, Resolves 0 None, Resolves 1 (Some [])]"

definition laterLoad :: "event list" where
  "laterLoad = [GetStoresStream 2, Resolves 2 (Some [newStore ''vault'' True False])]"

section \<open>Functions used in the proofs\<close>

text \<open>
  \<open>held sb p\<close> is the number of items under the key of the bucket \<open>fst p\<close>;
  \<open>bumped\<close> is the effect of one round of the \<open>forEach\<close> on \<open>vaultCounts\<close>;
  \<open>counted\<close> is \<open>vaultCounts\<close> after the rounds for a list of buckets, in closed form.
\<close>

definition held :: "(int \<rightharpoonup> D1Item list) \<Rightarrow> bucket \<times> bucket \<Rightarrow> nat" where
  "held sb p = (case sb (hash (fst p)) of Some xs \<Rightarrow> length xs | None \<Rightarrow> 0)"

definition counted ::
  "(int \<rightharpoonup> D1Item list) \<Rightarrow> (bucket \<times> bucket) list \<Rightarrow> (int \<rightharpoonup> vaultCount) \<Rightarrow> (int \<rightharpoonup> vaultCount)" where
  "counted sb ps vc =
     (\<lambda>x. case filter (\<lambda>p. hash (snd p) = x) ps of
            [] \<Rightarrow> vc x
          | p # rest \<Rightarrow>
              Some \<lparr>count = (case vc x of Some e \<Rightarrow> count e | None \<Rightarrow> 0)
                             + sum_list (map (held sb) (p # rest)),
                    bucket = (case vc x of Some e \<Rightarrow> bucket e
                              | None \<Rightarrow> if accountWide (fst p) then fst p else snd p)\<rparr>)"

definition bumped :: "(int \<rightharpoonup> vaultCount) \<Rightarrow> bucket \<times> bucket \<Rightarrow> nat \<Rightarrow> (int \<rightharpoonup> vaultCount)" where
  "bumped vc p n =
     (let entry = (case vc (hash (snd p)) of Some e \<Rightarrow> e
           | None \<Rightarrow> \<lparr>count = 0, bucket = (if accountWide (fst p) then fst p else snd p)\<rparr>)
      in vc(hash (snd p) \<mapsto> entry\<lparr>count := count entry + n\<rparr>))"

text \<open>
  Invariants of the service. \<open>fresh\<close>: what was buffered at the call came from an earlier
  run, and what the promise resolved with from a run started no earlier than the call.
  \<open>consistent\<close>: the run subscribed to was started after every call. \<open>counting\<close>: \<open>taken\<close>
  is the number of values that have reached the promise, at most two.
\<close>

definition fresh :: "nat \<Rightarrow> promise \<Rightarrow> bool" where
  "fresh n p =
     (calledAt p \<le> n
      \<and> (\<forall>v. cached p = Some v \<longrightarrow> fst v < calledAt p)
      \<and> (\<forall>v. resolved p = Some v \<longrightarrow> calledAt p \<le> fst v \<and> fst v < n))"

definition consistent :: "service \<Rightarrow> bool" where
  "consistent s =
     ((\<forall>k. inner s = Some k \<longrightarrow>
          connected s \<and> k < length (triggers s) \<and> (\<forall>p \<in> set (promises s). calledAt p \<le> k))
      \<and> (\<forall>v. replay s = Some v \<longrightarrow> fst v < length (triggers s))
      \<and> (\<forall>p \<in> set (promises s). fresh (length (triggers s)) p))"

definition counting :: "nat \<Rightarrow> promise \<Rightarrow> bool" where
  "counting n p =
     (emittedBefore p \<le> n
      \<and> taken p = min 2 ((if cached p = None then 0 else 1) + (n - emittedBefore p))
      \<and> (resolved p = None) = (taken p < 2))"

definition counted_all :: "service \<Rightarrow> bool" where
  "counted_all s = (\<forall>p \<in> set (promises s). counting (emitted s) p)"

section \<open>Unfolding the examples\<close>

lemmas example_buckets =
  weaponsVault_def armorVault_def otherVault_def primaryBucket_def specialBucket_def
  helmetBucket_def otherBucket_def plainBucket_def unknownBucket_def exampleCatalog_def

section \<open>Properties of \<open>findLastPlayedDate\<close>\<close>

lemma reduce_lastPlayed_null:
  "None \<in> set rs \<Longrightarrow> reduceE lastPlayedStep rs memo = Inl TypeError"
proof (induction rs arbitrary: memo)
  case Nil
  then show ?case by simp
next
  case (Cons x rs)
  show ?case
  proof (cases x)
    case None
    then show ?thesis by simp
  next
    case (Some r)
    with Cons.prems have "None \<in> set rs" by simp
    from Cons.IH [OF this] Some show ?thesis by (simp add: Let_def)
  qed
qed

lemma reduce_lastPlayed_fold:
  "None \<notin> set rs \<Longrightarrow>
   reduceE lastPlayedStep rs (Date m) = Inr (Date (fold max (charTimes rs) m))"
proof (induction rs arbitrary: m)
  case Nil
  then show ?case by simp
next
  case (Cons x rs)
  then obtain r where x: "x = Some r" by (cases x) auto
  from Cons.prems have rest: "None \<notin> set rs" by simp
  show ?case
  proof (cases "rawId r = ''vault''")
    case True
    with x Cons.IH [OF rest, of m] show ?thesis by simp
  next
    case False
    show ?thesis
    proof (cases "dateLastPlayed r")
      case InvalidDate
      with x False Cons.IH [OF rest, of m] show ?thesis by simp
    next
      case (Date t)
      show ?thesis
      proof (cases "m \<le> t")
        case True
        with x False Date Cons.IH [OF rest, of t] show ?thesis
          by (simp add: max.absorb1)
      next
        case nle: False
        with x False Date Cons.IH [OF rest, of m] show ?thesis
          by (simp add: max.absorb2)
      qed
    qed
  qed
qed

lemma reduce_lastPlayed_max:
  "None \<notin> set rs \<Longrightarrow>
   reduceE lastPlayedStep rs (Date m) = Inr (Date (Max (set (m # charTimes rs))))"
  by (simp add: reduce_lastPlayed_fold flip: Max.set_eq_fold)

lemma reduce_lastPlayed_drop_vault:
  "reduceE lastPlayedStep (filter (\<lambda>x. \<not> isVaultRaw x) rs) memo = reduceE lastPlayedStep rs memo"
proof (induction rs arbitrary: memo)
  case Nil
  show ?case by simp
next
  case (Cons x rs)
  show ?case
  proof (cases x)
    case None
    then show ?thesis by (simp add: isVaultRaw_def)
  next
    case (Some r)
    with Cons.IH show ?thesis by (simp add: isVaultRaw_def Let_def)
  qed
qed

lemma Max_with_epoch:
  "t \<in> set ts \<Longrightarrow> (0::int) \<le> t \<Longrightarrow> Max (set (0 # ts)) = Max (set ts)"
proof -
  assume a: "t \<in> set ts" "0 \<le> t"
  then have ne: "set ts \<noteq> {}" by auto
  have "t \<le> Max (set ts)" using a by simp
  with a have "0 \<le> Max (set ts)" by linarith
  with ne show ?thesis by (simp add: max.absorb2)
qed

text \<open>
  Claim C9. For every raw list, \<open>findLastPlayedDate\<close> raises a TypeError when an entry is
  \<open>null\<close> and otherwise returns the maximum of the epoch and the time values of the
  character records (an Invalid Date has none and is passed over), which is never before
  the epoch: the seed \<open>new Date(0)\<close> takes part in the maximum, so a character date before
  the epoch is clamped to it.
\<close>

theorem findLastPlayedDate_epoch_max:
  "findLastPlayedDate rs =
     (if None \<in> set rs then Inl TypeError
      else Inr (Date (Max (set (0 # charTimes rs)))))
   \<and> 0 \<le> Max (set (0 # charTimes rs))"
proof -
  have "0 \<le> Max (set (0 # charTimes rs))" by simp
  then show ?thesis
    by (simp add: findLastPlayedDate_def reduce_lastPlayed_null reduce_lastPlayed_max del: set_simps)
qed

theorem findLastPlayedDate_epoch_max_witness:
  "findLastPlayedDate [Some charBeforeEpoch] = Inr (Date 0)"
  using findLastPlayedDate_epoch_max [of "[Some charBeforeEpoch]"]
  by (simp add: charBeforeEpoch_def)

text \<open>
  Claim C2 as stated fails: for the single character record \<open>charBeforeEpoch\<close>, last
  played 5 ms before the epoch, the result is the epoch and not the maximum of the
  character dates.
\<close>

theorem lastPlayedDate_not_max_of_characters:
  "findLastPlayedDate [Some charBeforeEpoch]
     \<noteq> Inr (Date (Max (set (charTimes [Some charBeforeEpoch]))))"
  by (simp add: findLastPlayedDate_def charBeforeEpoch_def)

text \<open>
  Claim C2, amended. For a raw list without \<open>null\<close> entries: with no character record
  (none with a valid date) the result is the epoch; when some character date is at or after
  the epoch the result is the maximum of the character dates; in every case it is the
  maximum of the epoch and the character dates; and the vault records never take part:
  the result is that of the list without them.
\<close>

theorem findLastPlayedDate_characters:
  assumes "None \<notin> set rs"
  shows "(charTimes rs = [] \<longrightarrow> findLastPlayedDate rs = Inr epoch)
       \<and> ((\<exists>t \<in> set (charTimes rs). 0 \<le> t) \<longrightarrow>
            findLastPlayedDate rs = Inr (Date (Max (set (charTimes rs)))))
       \<and> findLastPlayedDate rs = Inr (Date (Max (set (0 # charTimes rs))))
       \<and> findLastPlayedDate (filter (\<lambda>x. \<not> isVaultRaw x) rs) = findLastPlayedDate rs"
proof -
  have all: "findLastPlayedDate rs = Inr (Date (Max (set (0 # charTimes rs))))"
    using assms by (simp add: findLastPlayedDate_def reduce_lastPlayed_max del: set_simps)
  have e: "charTimes rs = [] \<longrightarrow> findLastPlayedDate rs = Inr epoch"
    using all by (simp add: epoch_def)
  have m: "(\<exists>t \<in> set (charTimes rs). 0 \<le> t) \<longrightarrow>
            findLastPlayedDate rs = Inr (Date (Max (set (charTimes rs))))"
    using all Max_with_epoch by auto
  have v: "findLastPlayedDate (filter (\<lambda>x. \<not> isVaultRaw x) rs) = findLastPlayedDate rs"
    by (simp add: findLastPlayedDate_def reduce_lastPlayed_drop_vault)
  from all e m v show ?thesis by blast
qed

theorem findLastPlayedDate_characters_witness:
  "findLastPlayedDate [Some vaultRaw, Some charA, Some charB] = Inr (Date 20)
   \<and> findLastPlayedDate [Some charA, Some charB] = Inr (Date 20)
   \<and> findLastPlayedDate [Some vaultRaw] = Inr epoch"
proof -
  have n1: "None \<notin> set [Some vaultRaw, Some charA, Some charB]" by simp
  have n2: "None \<notin> set [Some vaultRaw]" by simp
  show ?thesis
    using findLastPlayedDate_characters [OF n1] findLastPlayedDate_characters [OF n2]
    by (simp add: vaultRaw_def charA_def charB_def isVaultRaw_def epoch_def)
qed

section \<open>The order of the vault buckets\<close>

lemma sorted_key_split:
  fixes f :: "'a \<Rightarrow> int"
  shows "sorted (map f ys) \<Longrightarrow>
    filter (\<lambda>y. f y < k) ys @ filter (\<lambda>y. \<not> f y < k) ys = ys"
proof (induction ys)
  case Nil
  show ?case by simp
next
  case (Cons y ys)
  then have s: "sorted (map f ys)" and le: "\<forall>z \<in> set ys. f y \<le> f z" by auto
  show ?case
  proof (cases "f y < k")
    case True
    with Cons.IH [OF s] show ?thesis by simp
  next
    case False
    with le have "\<forall>z \<in> set ys. \<not> f z < k" by auto
    then have "filter (\<lambda>y. f y < k) ys = []" and "filter (\<lambda>y. \<not> f y < k) ys = ys"
      by (simp_all add: filter_empty_conv filter_id_conv)
    with False show ?thesis by simp
  qed
qed

lemma indexOf_vaultBucketOrder:
  "indexOf vaultBucketOrder h =
     (if h = 4046403665 then 0 else if h = 3003523923 then 1
      else if h = 138197802 then 2 else - 1)"
  by (simp add: vaultBucketOrder_def)

lemma orderKey_range: "orderKey p \<in> {- 1, 0, 1, 2}"
  by (simp add: orderKey_def indexOf_vaultBucketOrder)

lemma sorted_four_groups:
  fixes f :: "'a \<Rightarrow> int"
  assumes s: "sorted (map f ys)" and r: "\<forall>y \<in> set ys. f y \<in> {- 1, 0, 1, 2}"
  shows "ys = filter (\<lambda>y. f y = - 1) ys @ filter (\<lambda>y. f y = 0) ys
            @ filter (\<lambda>y. f y = 1) ys @ filter (\<lambda>y. f y = 2) ys"
proof -
  let ?ge0 = "filter (\<lambda>y. \<not> f y < 0) ys"
  let ?ge1 = "filter (\<lambda>y. \<not> f y < 1) ?ge0"
  let ?ge2 = "filter (\<lambda>y. \<not> f y < 2) ?ge1"
  have s0: "sorted (map f ?ge0)" using s by (simp add: sorted_filter)
  have s1: "sorted (map f ?ge1)" using s0 by (simp add: sorted_filter del: filter_filter)
  have a: "ys = filter (\<lambda>y. f y < 0) ys @ ?ge0"
    using sorted_key_split [OF s, of 0] by simp
  have b: "?ge0 = filter (\<lambda>y. f y < 1) ?ge0 @ ?ge1"
    using sorted_key_split [OF s0, of 1] by simp
  have c: "?ge1 = filter (\<lambda>y. f y < 2) ?ge1 @ ?ge2"
    using sorted_key_split [OF s1, of 2] by simp
  have g1: "filter (\<lambda>y. f y < 0) ys = filter (\<lambda>y. f y = - 1) ys"
    using r by (intro filter_cong) auto
  have g2: "filter (\<lambda>y. f y < 1) ?ge0 = filter (\<lambda>y. f y = 0) ys"
    using r by (simp, intro filter_cong) auto
  have g3: "filter (\<lambda>y. f y < 2) ?ge1 = filter (\<lambda>y. f y = 1) ys"
    using r by (simp, intro filter_cong) auto
  have g4: "?ge2 = filter (\<lambda>y. f y = 2) ys"
    using r by (simp, intro filter_cong) auto
  from a b c g1 g2 g3 g4 show ?thesis by metis
qed

lemma sort_key_four_groups:
  fixes f :: "'a \<Rightarrow> int"
  assumes r: "\<forall>y \<in> set xs. f y \<in> {- 1, 0, 1, 2}"
  shows "sort_key f xs = filter (\<lambda>y. f y = - 1) xs @ filter (\<lambda>y. f y = 0) xs
            @ filter (\<lambda>y. f y = 1) xs @ filter (\<lambda>y. f y = 2) xs"
proof -
  have "sorted (map f (sort_key f xs))" by (rule sorted_sort_key)
  moreover have "\<forall>y \<in> set (sort_key f xs). f y \<in> {- 1, 0, 1, 2}" using r by simp
  ultimately have "sort_key f xs =
      filter (\<lambda>y. f y = - 1) (sort_key f xs) @ filter (\<lambda>y. f y = 0) (sort_key f xs)
      @ filter (\<lambda>y. f y = 1) (sort_key f xs) @ filter (\<lambda>y. f y = 2) (sort_key f xs)"
    by (rule sorted_four_groups)
  then show ?thesis by (simp only: sort_key_stable)
qed

text \<open>
  Claim C3, amended. The buckets with a \<open>vaultBucket\<close> are visited in ascending order of
  \<open>vaultBucketOrder.indexOf(vaultBucket.hash)\<close>, and the sort is stable. \<open>indexOf\<close> is
  \<open>-1\<close> for a hash that is none of the three, so those buckets come first, then the
  buckets of Weapons (4046403665), of Armor (3003523923) and of General (138197802), each
  group in catalog order.
\<close>

theorem vault_iteration_order:
  "sortedVaultBuckets catalog =
     filter (\<lambda>p. hash (snd p) \<notin> set vaultBucketOrder) (withVaultBucket catalog)
     @ filter (\<lambda>p. hash (snd p) = 4046403665) (withVaultBucket catalog)
     @ filter (\<lambda>p. hash (snd p) = 3003523923) (withVaultBucket catalog)
     @ filter (\<lambda>p. hash (snd p) = 138197802) (withVaultBucket catalog)"
proof -
  have k1: "(\<lambda>p. orderKey p = - 1) = (\<lambda>p. hash (snd p) \<notin> set vaultBucketOrder)"
    by (rule ext) (simp add: orderKey_def indexOf_vaultBucketOrder, simp add: vaultBucketOrder_def)
  have k2: "(\<lambda>p. orderKey p = 0) = (\<lambda>p. hash (snd p) = 4046403665)"
    by (rule ext) (simp add: orderKey_def indexOf_vaultBucketOrder)
  have k3: "(\<lambda>p. orderKey p = 1) = (\<lambda>p. hash (snd p) = 3003523923)"
    by (rule ext) (simp add: orderKey_def indexOf_vaultBucketOrder)
  have k4: "(\<lambda>p. orderKey p = 2) = (\<lambda>p. hash (snd p) = 138197802)"
    by (rule ext) (simp add: orderKey_def indexOf_vaultBucketOrder)
  have "\<forall>p \<in> set (withVaultBucket catalog). orderKey p \<in> {- 1, 0, 1, 2}"
    using orderKey_range by blast
  from sort_key_four_groups [OF this] show ?thesis
    unfolding sortedVaultBuckets_def k1 k2 k3 k4 .
qed

text \<open>
  Claim C3 as stated fails: in \<open>exampleCatalog\<close> the bucket whose vault bucket (42) is none
  of the three is visited before the Weapons and Armor buckets, not after them.
\<close>

theorem other_vault_buckets_come_first:
  "sortedVaultBuckets exampleCatalog =
     [(otherBucket, otherVault), (specialBucket, weaponsVault),
      (primaryBucket, weaponsVault), (helmetBucket, armorVault)]"
  by (simp add: sortedVaultBuckets_def orderKey_def indexOf_vaultBucketOrder example_buckets)

section \<open>The bucket mapping and the vault counts\<close>

lemma dom_groupBy: "dom (groupBy its) = (\<lambda>i. hash (location i)) ` set its"
proof -
  have "\<And>h. (filter (\<lambda>i. hash (location i) = h) its \<noteq> []) = (h \<in> (\<lambda>i. hash (location i)) ` set its)"
    by (auto simp: filter_empty_conv)
  then show ?thesis
    by (auto simp: groupBy_def Let_def dom_def split: if_splits)
qed

lemma fold_fill_lookup:
  "fold (\<lambda>b m'. if m' (hash b) = None then m'(hash b \<mapsto> []) else m') catalog m h =
     (case m h of Some xs \<Rightarrow> Some xs
      | None \<Rightarrow> if h \<in> hash ` set catalog then Some [] else None)"
proof (induction catalog arbitrary: m)
  case Nil
  show ?case by (simp split: option.splits)
next
  case (Cons b bs)
  show ?case by (simp add: Cons.IH split: option.splits)
qed

lemma fillMissing_lookup:
  "fillMissing catalog m h =
     (case m h of Some xs \<Rightarrow> Some xs
      | None \<Rightarrow> if h \<in> hash ` set catalog then Some [] else None)"
  unfolding fillMissing_def by (rule fold_fill_lookup)

lemma dom_fillMissing: "dom (fillMissing catalog m) = dom m \<union> hash ` set catalog"
  by (auto simp: fillMissing_lookup dom_def split: option.splits if_splits)

lemma fill_groupBy_lookup:
  "b \<in> set catalog \<Longrightarrow>
   fillMissing catalog (groupBy its) (hash b) = Some (filter (\<lambda>i. hash (location i) = hash b) its)"
  by (simp add: fillMissing_lookup groupBy_def Let_def)

lemma processStore_then_fields:
  assumes "processStore_then store catalog its = Inr st"
  shows "items st = its" and "buckets st = fillMissing catalog (groupBy its)"
    and "isVault st = isVault store"
  using assms
  by (auto simp: processStore_then_def Let_def split: if_splits sum.splits)

lemma processStore_resolved:
  assumes "processStore I raw defs catalog cur d = Inr (Some (Inr st), cur')"
  shows "\<exists>store its. processStore_then store catalog its = Inr st"
  using assms
  by (auto simp: processStore_def split: option.splits sum.splits if_splits prod.splits)

text \<open>
  Claim C5, amended. In a store that \<open>processStore\<close> resolves with, every bucket of the
  catalog is a key of the bucket mapping, mapped to the items located in it (the empty list
  when there are none); the keys are the hashes of the catalog together with the hashes
  the items are located at; and there are exactly as many keys as buckets in the catalog
  when the hashes of the catalog are distinct and every item is located in a bucket of the
  catalog.
\<close>

theorem store_bucket_keys:
  assumes "processStore I raw defs catalog cur d = Inr (Some (Inr st), cur')"
  shows "(\<forall>b \<in> set catalog.
            buckets st (hash b) = Some (filter (\<lambda>i. hash (location i) = hash b) (items st)))
       \<and> dom (buckets st) = hash ` set catalog \<union> (\<lambda>i. hash (location i)) ` set (items st)
       \<and> (distinct (map hash catalog)
            \<and> (\<forall>i \<in> set (items st). hash (location i) \<in> hash ` set catalog)
            \<longrightarrow> card (dom (buckets st)) = length catalog)"
proof -
  from processStore_resolved [OF assms] obtain store its
    where t: "processStore_then store catalog its = Inr st" by blast
  note f = processStore_then_fields [OF t]
  have a: "\<forall>b \<in> set catalog.
            buckets st (hash b) = Some (filter (\<lambda>i. hash (location i) = hash b) (items st))"
    by (simp add: f fill_groupBy_lookup)
  have b: "dom (buckets st) = hash ` set catalog \<union> (\<lambda>i. hash (location i)) ` set (items st)"
    by (simp add: f dom_fillMissing dom_groupBy Un_commute)
  have c: "card (dom (buckets st)) = length catalog"
    if d: "distinct (map hash catalog)"
      and i: "\<forall>i \<in> set (items st). hash (location i) \<in> hash ` set catalog"
  proof -
    from i have "dom (buckets st) = set (map hash catalog)" unfolding b by auto
    then show ?thesis using d by (simp only: distinct_card length_map)
  qed
  from a b c show ?thesis by blast
qed

text \<open>
  Claim C5 as stated fails: with a catalog of one bucket and two items located in
  \<open>unknownBucket\<close>, which is not in the catalog, the mapping has two keys.
\<close>

theorem bucket_keys_exceed_catalog:
  "(case processStore exampleCollaborators (Some vaultRaw) 0 [plainBucket] [] epoch of
      Inr (Some (Inr st), cur) \<Rightarrow> card (dom (buckets st)) = 2
    | _ \<Rightarrow> False)"
  by (simp add: processStore_def exampleCollaborators_def vaultRaw_def processStore_then_def
      Let_def newStore_def locate_def sortedVaultBuckets_def plainBucket_def unknownBucket_def
      dom_fillMissing dom_groupBy)

lemma counted_Nil: "counted sb [] vc = vc"
  by (simp add: counted_def)

lemma countStep_bumped:
  "sb (hash (fst p)) = Some xs \<Longrightarrow> countStep sb vc p = Inr (bumped vc p (length xs))"
  by (simp add: countStep_def bumped_def Let_def)

lemma bumped_other: "hash (snd p) \<noteq> x \<Longrightarrow> bumped vc p n x = vc x"
  by (auto simp: bumped_def Let_def)

lemma bumped_same:
  "bumped vc p n (hash (snd p)) =
     Some \<lparr>count = (case vc (hash (snd p)) of Some e \<Rightarrow> count e | None \<Rightarrow> 0) + n,
           bucket = (case vc (hash (snd p)) of Some e \<Rightarrow> bucket e
                     | None \<Rightarrow> if accountWide (fst p) then fst p else snd p)\<rparr>"
  by (cases "vc (hash (snd p))") (simp_all add: bumped_def Let_def)

lemma counted_Cons:
  assumes "sb (hash (fst p)) = Some xs"
  shows "counted sb (p # ps) vc = counted sb ps (bumped vc p (length xs))"
proof (rule ext)
  fix x
  show "counted sb (p # ps) vc x = counted sb ps (bumped vc p (length xs)) x"
  proof (cases "hash (snd p) = x")
    case True
    have h: "held sb p = length xs" using assms by (simp add: held_def)
    show ?thesis
    proof (cases "filter (\<lambda>p. hash (snd p) = x) ps")
      case Nil
      with True h show ?thesis
        using bumped_same [of vc p "length xs"] by (simp add: counted_def)
    next
      case (Cons q qs)
      with True h show ?thesis
        using bumped_same [of vc p "length xs"] by (simp add: counted_def)
    qed
  next
    case False
    then show ?thesis by (simp add: counted_def bumped_other split: list.splits)
  qed
qed

lemma reduce_countStep:
  assumes "\<forall>p \<in> set ps. hash (fst p) \<in> dom sb"
  shows "reduceE (countStep sb) ps vc = Inr (counted sb ps vc)"
  using assms
proof (induction ps arbitrary: vc)
  case Nil
  show ?case by (simp add: counted_Nil)
next
  case (Cons p ps)
  then obtain xs where xs: "sb (hash (fst p)) = Some xs" by auto
  from Cons.prems have rest: "\<forall>p \<in> set ps. hash (fst p) \<in> dom sb" by simp
  show ?case
    using xs by (simp add: countStep_bumped Cons.IH [OF rest] counted_Cons)
qed

lemma withVaultBucket_set:
  "p \<in> set (withVaultBucket catalog) \<Longrightarrow> fst p \<in> set catalog \<and> vaultBucket (fst p) = Some (snd p)"
  by (induction catalog) (auto split: option.splits)

lemma withVaultBucket_complete:
  "b \<in> set catalog \<Longrightarrow> vaultBucket b = Some vb \<Longrightarrow> (b, vb) \<in> set (withVaultBucket catalog)"
  by (induction catalog) (auto split: option.splits)

lemma same_vault_stable:
  "filter (\<lambda>p. hash (snd p) = x) (sortedVaultBuckets catalog)
     = filter (\<lambda>p. hash (snd p) = x) (withVaultBucket catalog)"
proof -
  let ?k = "indexOf vaultBucketOrder x"
  have c: "\<And>ys. filter (\<lambda>p. hash (snd p) = x) ys
                 = filter (\<lambda>p. hash (snd p) = x) (filter (\<lambda>p. orderKey p = ?k) ys)"
    by (simp, rule filter_cong) (auto simp: orderKey_def)
  show ?thesis
    unfolding sortedVaultBuckets_def
    by (subst c, subst sort_key_stable, subst c [symmetric], rule refl)
qed

lemma counted_empty:
  "counted sb ps Map.empty x =
     (case filter (\<lambda>p. hash (snd p) = x) ps of
        [] \<Rightarrow> None
      | p # rest \<Rightarrow>
          Some \<lparr>count = sum_list (map (held sb) (p # rest)),
                bucket = (if accountWide (fst p) then fst p else snd p)\<rparr>)"
  by (simp add: counted_def split: list.splits)

lemma held_fill_groupBy:
  "fst q \<in> set catalog \<Longrightarrow>
   held (fillMissing catalog (groupBy its)) q
     = length (filter (\<lambda>i. hash (location i) = hash (fst q)) its)"
  by (simp add: held_def fill_groupBy_lookup)

lemma vault_then_counts:
  assumes v: "isVault store"
  shows "processStore_then store catalog its =
     Inr (store\<lparr>items := its, buckets := fillMissing catalog (groupBy its),
                vaultCounts := counted (fillMissing catalog (groupBy its))
                                 (sortedVaultBuckets catalog) Map.empty\<rparr>)"
proof -
  have "\<forall>p \<in> set (sortedVaultBuckets catalog).
          hash (fst p) \<in> dom (fillMissing catalog (groupBy its))"
    using withVaultBucket_set
    by (auto simp: sortedVaultBuckets_def dom_fillMissing)
  from reduce_countStep [OF this] v show ?thesis
    by (simp add: processStore_then_def Let_def)
qed

lemma character_then:
  "\<not> isVault store \<Longrightarrow> processStore_then store catalog its =
     Inr (store\<lparr>items := its, buckets := fillMissing catalog (groupBy its)\<rparr>)"
  by (simp add: processStore_then_def Let_def)

lemma processStore_then_total: "\<exists>st. processStore_then store catalog its = Inr st"
  by (cases "isVault store") (simp_all add: vault_then_counts character_then)

lemma length_filter_disjoint:
  "(\<And>i. i \<in> set its \<Longrightarrow> \<not> (P i \<and> Q i)) \<Longrightarrow>
   length (filter (\<lambda>i. P i \<or> Q i) its) = length (filter P its) + length (filter Q its)"
  by (induction its) auto

lemma sum_length_filter_keys:
  "distinct ks \<Longrightarrow>
   sum_list (map (\<lambda>k. length (filter (\<lambda>i. f i = k) its)) ks)
     = length (filter (\<lambda>i. f i \<in> set ks) its)"
proof (induction ks)
  case Nil
  show ?case by simp
next
  case (Cons k ks)
  then have d: "distinct ks" and n: "k \<notin> set ks" by simp_all
  have "length (filter (\<lambda>i. f i = k \<or> f i \<in> set ks) its)
      = length (filter (\<lambda>i. f i = k) its) + length (filter (\<lambda>i. f i \<in> set ks) its)"
    using n by (intro length_filter_disjoint) auto
  with Cons.IH [OF d] show ?case by simp
qed

lemma map_fst_withVaultBucket:
  "map fst (filter (\<lambda>p. hash (snd p) = x) (withVaultBucket catalog))
     = filter (\<lambda>b. map_option hash (vaultBucket b) = Some x) catalog"
  by (induction catalog) (auto split: option.splits)

lemma vault_sum_distinct:
  assumes d: "distinct (map hash catalog)"
  shows "sum_list (map (\<lambda>q. length (filter (\<lambda>i. hash (location i) = hash (fst q)) its))
                    (filter (\<lambda>p. hash (snd p) = x) (withVaultBucket catalog)))
     = length (filter (\<lambda>i. \<exists>b \<in> set catalog. hash b = hash (location i)
                               \<and> map_option hash (vaultBucket b) = Some x) its)"
proof -
  let ?ws = "filter (\<lambda>p. hash (snd p) = x) (withVaultBucket catalog)"
  let ?bs = "filter (\<lambda>b. map_option hash (vaultBucket b) = Some x) catalog"
  let ?ks = "map hash ?bs"
  have dk: "distinct ?ks" using d by (rule distinct_map_filter)
  have "map (\<lambda>q. length (filter (\<lambda>i. hash (location i) = hash (fst q)) its)) ?ws
      = map (\<lambda>k. length (filter (\<lambda>i. hash (location i) = k) its)) (map hash (map fst ?ws))"
    by simp
  also have "\<dots> = map (\<lambda>k. length (filter (\<lambda>i. hash (location i) = k) its)) ?ks"
    by (simp only: map_fst_withVaultBucket)
  finally have "sum_list (map (\<lambda>q. length (filter (\<lambda>i. hash (location i) = hash (fst q)) its)) ?ws)
      = length (filter (\<lambda>i. hash (location i) \<in> set ?ks) its)"
    using sum_length_filter_keys [OF dk, of "\<lambda>i. hash (location i)" its] by simp
  also have "\<dots> = length (filter (\<lambda>i. \<exists>b \<in> set catalog. hash b = hash (location i)
                               \<and> map_option hash (vaultBucket b) = Some x) its)"
  proof -
    have "(\<lambda>i. hash (location i) \<in> set ?ks)
        = (\<lambda>i. \<exists>b \<in> set catalog. hash b = hash (location i)
                               \<and> map_option hash (vaultBucket b) = Some x)"
      by (rule ext) (auto simp: image_iff)
    then show ?thesis by (rule arg_cong [where f = "\<lambda>P. length (filter P its)"])
  qed
  finally show ?thesis .
qed

lemma declared_iff:
  "(filter (\<lambda>p. hash (snd p) = x) (withVaultBucket catalog) = [])
     = (\<not> (\<exists>b \<in> set catalog. map_option hash (vaultBucket b) = Some x))"
proof -
  have "(filter (\<lambda>p. hash (snd p) = x) (withVaultBucket catalog) = [])
      = (map fst (filter (\<lambda>p. hash (snd p) = x) (withVaultBucket catalog)) = [])" by simp
  also have "\<dots> = (\<not> (\<exists>b \<in> set catalog. map_option hash (vaultBucket b) = Some x))"
    by (simp only: map_fst_withVaultBucket filter_empty_conv) auto
  finally show ?thesis .
qed

lemma vault_counts_sum:
  assumes p: "processStore I raw defs catalog cur d = Inr (Some (Inr st), cur')"
    and v: "isVault st"
  shows "vaultCounts st x =
     (case filter (\<lambda>p. hash (snd p) = x) (withVaultBucket catalog) of
        [] \<Rightarrow> None
      | p # rest \<Rightarrow>
          Some \<lparr>count = sum_list (map (\<lambda>q. length (filter (\<lambda>i. hash (location i) = hash (fst q))
                                                       (items st))) (p # rest)),
                bucket = (if accountWide (fst p) then fst p else snd p)\<rparr>)"
proof -
  from processStore_resolved [OF p] obtain store its
    where t: "processStore_then store catalog its = Inr st" by blast
  note f = processStore_then_fields [OF t]
  from v f have vs: "isVault store" by simp
  let ?sb = "fillMissing catalog (groupBy its)"
  let ?ws = "filter (\<lambda>p. hash (snd p) = x) (withVaultBucket catalog)"
  from t vault_then_counts [OF vs, of catalog its]
  have vc: "vaultCounts st = counted ?sb (sortedVaultBuckets catalog) Map.empty"
    by auto
  have h: "map (held ?sb) ?ws
         = map (\<lambda>q. length (filter (\<lambda>i. hash (location i) = hash (fst q)) its)) ?ws"
    using withVaultBucket_set by (intro map_cong refl held_fill_groupBy) auto
  show ?thesis
  proof (cases ?ws)
    case Nil
    then show ?thesis by (simp add: vc counted_empty same_vault_stable)
  next
    case (Cons q qs)
    from h have "sum_list (map (held ?sb) ?ws)
         = sum_list (map (\<lambda>q. length (filter (\<lambda>i. hash (location i) = hash (fst q)) its)) ?ws)"
      by (simp only:)
    with Cons show ?thesis
      by (simp add: vc counted_empty same_vault_stable f(1))
  qed
qed

text \<open>
  Claim C4, amended. In a vault store that \<open>processStore\<close> resolves with, \<open>vaultCounts\<close>
  has an entry exactly for the hashes \<open>x\<close> that are the \<open>vaultBucket\<close> of some bucket of the
  catalog. Its count is the sum, over the entries of the catalog with that vault bucket,
  of the number of items of the vault store itself located at the hash of the entry; when
  the hashes of the catalog are distinct, that is the number of items of the vault store
  located in a bucket of the catalog with that vault bucket. Its representative bucket is
  decided by the first entry of the catalog with that vault bucket: that bucket itself
  when it is \<open>accountWide\<close>, otherwise its \<open>vaultBucket\<close>.
\<close>

theorem vault_counts:
  assumes p: "processStore I raw defs catalog cur d = Inr (Some (Inr st), cur')"
    and v: "isVault st"
  shows "vaultCounts st x =
     (case filter (\<lambda>p. hash (snd p) = x) (withVaultBucket catalog) of
        [] \<Rightarrow> None
      | p # rest \<Rightarrow>
          Some \<lparr>count = sum_list (map (\<lambda>q. length (filter (\<lambda>i. hash (location i) = hash (fst q))
                                                       (items st))) (p # rest)),
                bucket = (if accountWide (fst p) then fst p else snd p)\<rparr>)
   \<and> (distinct (map hash catalog) \<longrightarrow>
        vaultCounts st x =
          (case filter (\<lambda>p. hash (snd p) = x) (withVaultBucket catalog) of
             [] \<Rightarrow> None
           | p # rest \<Rightarrow>
               Some \<lparr>count = length (filter (\<lambda>i. \<exists>b \<in> set catalog. hash b = hash (location i)
                                    \<and> map_option hash (vaultBucket b) = Some x) (items st)),
                     bucket = (if accountWide (fst p) then fst p else snd p)\<rparr>))"
proof -
  note s = vault_counts_sum [OF p v, of x]
  have "vaultCounts st x =
          (case filter (\<lambda>p. hash (snd p) = x) (withVaultBucket catalog) of
             [] \<Rightarrow> None
           | p # rest \<Rightarrow>
               Some \<lparr>count = length (filter (\<lambda>i. \<exists>b \<in> set catalog. hash b = hash (location i)
                                    \<and> map_option hash (vaultBucket b) = Some x) (items st)),
                     bucket = (if accountWide (fst p) then fst p else snd p)\<rparr>)"
    if d: "distinct (map hash catalog)"
  proof (cases "filter (\<lambda>p. hash (snd p) = x) (withVaultBucket catalog)")
    case Nil
    with s show ?thesis by simp
  next
    case (Cons q qs)
    from vault_sum_distinct [OF d, of "items st" x] Cons
    have "sum_list (map (\<lambda>q. length (filter (\<lambda>i. hash (location i) = hash (fst q)) (items st)))
                     (q # qs))
        = length (filter (\<lambda>i. \<exists>b \<in> set catalog. hash b = hash (location i)
                                    \<and> map_option hash (vaultBucket b) = Some x) (items st))"
      by (simp only:)
    with s Cons show ?thesis by (simp only: list.case)
  qed
  with s show ?thesis by blast
qed

text \<open>
  An entry that occurs twice in the catalog is visited twice: two items in the one bucket
  give the count 4.
\<close>

lemma duplicate_catalog_entry_counts_twice:
  "(case processStore exampleCollaborators (Some (vaultRaw\<lparr>rawItems := [0, 1]\<rparr>)) 0
          [primaryBucket, primaryBucket] [] epoch of
      Inr (Some (Inr st), cur) \<Rightarrow>
        length (items st) = 2 \<and> map_option count (vaultCounts st 4046403665) = Some 4
    | _ \<Rightarrow> False)"
proof -
  have v: "isVault (newStore ''vault'' True False)" by (simp add: newStore_def)
  show ?thesis
    by (simp add: processStore_def exampleCollaborators_def vaultRaw_def locate_def
        vault_then_counts [OF v] counted_empty same_vault_stable held_def fillMissing_lookup
        groupBy_def primaryBucket_def weaponsVault_def)
qed

lemma vault_example:
  "processStore exampleCollaborators (Some vaultRaw) 0 exampleCatalog [] epoch =
     Inr (Some (processStore_then (newStore ''vault'' True False) exampleCatalog
                  [\<lparr>itemId = 1, location = primaryBucket\<rparr>, \<lparr>itemId = 2, location = helmetBucket\<rparr>]), [])"
  by (simp add: processStore_def exampleCollaborators_def vaultRaw_def locate_def exampleCatalog_def)

theorem vault_counts_witness:
  "(case processStore exampleCollaborators (Some vaultRaw) 0 exampleCatalog [] epoch of
      Inr (Some (Inr st), cur) \<Rightarrow>
        vaultCounts st 4046403665 = Some \<lparr>count = 1, bucket = specialBucket\<rparr>
        \<and> vaultCounts st 3003523923 = Some \<lparr>count = 1, bucket = armorVault\<rparr>
        \<and> vaultCounts st 42 = Some \<lparr>count = 0, bucket = otherVault\<rparr>
        \<and> vaultCounts st 138197802 = None
    | _ \<Rightarrow> False)"
proof -
  obtain st where t: "processStore_then (newStore ''vault'' True False) exampleCatalog
                  [\<lparr>itemId = 1, location = primaryBucket\<rparr>, \<lparr>itemId = 2, location = helmetBucket\<rparr>] = Inr st"
    using processStore_then_total by blast
  with vault_example
  have p: "processStore exampleCollaborators (Some vaultRaw) 0 exampleCatalog [] epoch
             = Inr (Some (Inr st), [])" by simp
  from processStore_then_fields [OF t]
  have i: "items st = [\<lparr>itemId = 1, location = primaryBucket\<rparr>, \<lparr>itemId = 2, location = helmetBucket\<rparr>]"
    and v: "isVault st" by (simp_all add: newStore_def)
  have d: "distinct (map hash exampleCatalog)" by (simp add: example_buckets)
  note c = vault_counts [OF p v, THEN conjunct2, THEN mp, OF d]
  have "vaultCounts st 4046403665 = Some \<lparr>count = 1, bucket = specialBucket\<rparr>
        \<and> vaultCounts st 3003523923 = Some \<lparr>count = 1, bucket = armorVault\<rparr>
        \<and> vaultCounts st 42 = Some \<lparr>count = 0, bucket = otherVault\<rparr>
        \<and> vaultCounts st 138197802 = None"
    using c [of 4046403665] c [of 3003523923] c [of 42] c [of 138197802]
    by (simp add: i example_buckets)
  then show ?thesis by (simp add: p)
qed

lemma example_fields:
  "getDefinitions exampleCollaborators = Inr 0"
  "loadNewItems exampleCollaborators account = Inr ()"
  "getStores exampleCollaborators account = Inr [Some vaultRaw, Some charA, Some charB]"
  "bucketsSelector exampleCollaborators = exampleCatalog"
  "getPlatforms exampleCollaborators = Inr None"
  "reviewsEnabled exampleCollaborators = False"
  by (simp_all add: exampleCollaborators_def)

lemma vault_example_any_date:
  "processStore exampleCollaborators (Some vaultRaw) 0 exampleCatalog [] d =
     Inr (Some (processStore_then (newStore ''vault'' True False) exampleCatalog
                  [\<lparr>itemId = 1, location = primaryBucket\<rparr>, \<lparr>itemId = 2, location = helmetBucket\<rparr>]), [])"
  by (simp add: processStore_def exampleCollaborators_def vaultRaw_def locate_def exampleCatalog_def)

lemma charA_example:
  "processStore exampleCollaborators (Some charA) 0 exampleCatalog [] (Date 20) =
     Inr (Some (processStore_then (newStore ''2305843009'' False False) exampleCatalog
                  [\<lparr>itemId = 0, location = specialBucket\<rparr>, \<lparr>itemId = 0, location = specialBucket\<rparr>,
                   \<lparr>itemId = 1, location = primaryBucket\<rparr>]), [])"
  by (simp add: processStore_def exampleCollaborators_def charA_def locate_def exampleCatalog_def)

theorem store_bucket_keys_witness:
  "(case processStore exampleCollaborators (Some charA) 0 exampleCatalog [] (Date 20) of
      Inr (Some (Inr st), cur) \<Rightarrow>
        card (dom (buckets st)) = 5 \<and> buckets st 9 = Some []
        \<and> map_option length (buckets st 2465295065) = Some 2
    | _ \<Rightarrow> False)"
proof -
  let ?its = "[\<lparr>itemId = 0, location = specialBucket\<rparr>, \<lparr>itemId = 0, location = specialBucket\<rparr>,
               \<lparr>itemId = 1, location = primaryBucket\<rparr>]"
  obtain st where t: "processStore_then (newStore ''2305843009'' False False) exampleCatalog ?its = Inr st"
    using processStore_then_total by blast
  with charA_example
  have p: "processStore exampleCollaborators (Some charA) 0 exampleCatalog [] (Date 20)
             = Inr (Some (Inr st), [])" by simp
  from processStore_then_fields [OF t] have i: "items st = ?its" by simp
  have d: "distinct (map hash exampleCatalog)" by (simp add: example_buckets)
  have l: "\<forall>i \<in> set (items st). hash (location i) \<in> hash ` set exampleCatalog"
    by (simp add: i example_buckets)
  have m: "plainBucket \<in> set exampleCatalog" "specialBucket \<in> set exampleCatalog"
    by (simp_all add: exampleCatalog_def)
  from store_bucket_keys [OF p] d l m
  have "card (dom (buckets st)) = length exampleCatalog
      \<and> buckets st (hash plainBucket) = Some (filter (\<lambda>i. hash (location i) = hash plainBucket) (items st))
      \<and> buckets st (hash specialBucket) = Some (filter (\<lambda>i. hash (location i) = hash specialBucket) (items st))"
    by blast
  then have "card (dom (buckets st)) = 5 \<and> buckets st 9 = Some []
        \<and> map_option length (buckets st 2465295065) = Some 2"
    by (simp add: i example_buckets)
  then show ?thesis by (simp add: p)
qed

lemma charB_example:
  "processStore exampleCollaborators (Some charB) 0 exampleCatalog [] (Date 20) =
     Inr (Some (processStore_then (newStore ''2305843010'' False True) exampleCatalog []), [])"
  by (simp add: processStore_def exampleCollaborators_def charB_def locate_def exampleCatalog_def)

lemma example_cycle:
  "fetchAndProcess exampleCollaborators account =
     Inr [newStore ''vault'' True False
            \<lparr>items := [\<lparr>itemId = 1, location = primaryBucket\<rparr>, \<lparr>itemId = 2, location = helmetBucket\<rparr>],
             buckets := fillMissing exampleCatalog
                (groupBy [\<lparr>itemId = 1, location = primaryBucket\<rparr>, \<lparr>itemId = 2, location = helmetBucket\<rparr>]),
             vaultCounts := counted (fillMissing exampleCatalog
                (groupBy [\<lparr>itemId = 1, location = primaryBucket\<rparr>, \<lparr>itemId = 2, location = helmetBucket\<rparr>]))
                (sortedVaultBuckets exampleCatalog) Map.empty\<rparr>,
          newStore ''2305843009'' False False
            \<lparr>items := [\<lparr>itemId = 0, location = specialBucket\<rparr>, \<lparr>itemId = 0, location = specialBucket\<rparr>,
                       \<lparr>itemId = 1, location = primaryBucket\<rparr>],
             buckets := fillMissing exampleCatalog
                (groupBy [\<lparr>itemId = 0, location = specialBucket\<rparr>, \<lparr>itemId = 0, location = specialBucket\<rparr>,
                       \<lparr>itemId = 1, location = primaryBucket\<rparr>])\<rparr>,
          newStore ''2305843010'' False True
            \<lparr>items := [], buckets := fillMissing exampleCatalog (groupBy [])\<rparr>]"
proof -
  have v: "isVault (newStore ''vault'' True False)" by (simp add: newStore_def)
  have a: "\<not> isVault (newStore ''2305843009'' False False)" by (simp add: newStore_def)
  have b: "\<not> isVault (newStore ''2305843010'' False True)" by (simp add: newStore_def)
  have d: "findLastPlayedDate [Some vaultRaw, Some charA, Some charB] = Inr (Date 20)"
    by (simp add: findLastPlayedDate_def vaultRaw_def charA_def charB_def)
  show ?thesis
    by (simp add: fetchAndProcess_def example_fields d
        vault_example_any_date charA_example charB_example
        vault_then_counts [OF v] character_then [OF a] character_then [OF b])
qed

text \<open>
  Claim C4 as stated fails: in the cycle over \<open>vaultRaw\<close>, \<open>charA\<close> and \<open>charB\<close> the stores
  hold four items in buckets mapped to the Weapons vault bucket, three of them on the
  character \<open>charA\<close>, and the count recorded in the vault store is 1: the items of the
  vault alone.
\<close>

theorem vault_count_ignores_characters:
  "(case fetchAndProcess exampleCollaborators 1 of
      Inr [v, a, b] \<Rightarrow>
        map_option count (vaultCounts v 4046403665) = Some 1
        \<and> length (filter (\<lambda>i. map_option hash (vaultBucket (location i)) = Some 4046403665)
                    (items v @ items a @ items b)) = 4
    | _ \<Rightarrow> False)"
  by (simp add: example_cycle counted_empty same_vault_stable held_def fillMissing_lookup
      groupBy_def example_buckets)

text \<open>
  Claim C10. For a raw record tagged \<open>vault\<close>, what \<open>processStore\<close> returns (the store, a
  failure, and the currencies) is the same for any two values of \<open>lastPlayedDate\<close>.
\<close>

theorem vault_ignores_lastPlayedDate:
  assumes "rawId r = ''vault''"
  shows "processStore I (Some r) defs catalog cur d1 = processStore I (Some r) defs catalog cur d2"
  using assms by (simp add: processStore_def)

theorem vault_ignores_lastPlayedDate_witness:
  "rawId vaultRaw = ''vault''
   \<and> processStore exampleCollaborators (Some vaultRaw) 0 exampleCatalog [] (Date 1)
     = processStore exampleCollaborators (Some vaultRaw) 0 exampleCatalog [] (Date 2)"
proof -
  have v: "rawId vaultRaw = ''vault''" by (simp add: vaultRaw_def)
  from v vault_ignores_lastPlayedDate [OF v] show ?thesis by blast
qed

text \<open>For a character record the date is read: the result may differ.\<close>

lemma character_reads_lastPlayedDate:
  "processStore exampleCollaborators (Some charB) 0 exampleCatalog [] (Date 20)
     \<noteq> processStore exampleCollaborators (Some charB) 0 exampleCatalog [] (Date 10)"
proof -
  have "processStore exampleCollaborators (Some charB) 0 exampleCatalog [] (Date 10) =
     Inr (Some (processStore_then (newStore ''2305843010'' False False) exampleCatalog []), [])"
    by (simp add: processStore_def exampleCollaborators_def charB_def locate_def exampleCatalog_def)
  then show ?thesis
    by (simp add: charB_example character_then newStore_def)
qed

section \<open>The load cycle\<close>

lemma resolveAccount_stores:
  "resolveAccount I st = Inr (a, st1) \<Longrightarrow> stores st1 = stores st \<and> effects st1 = effects st"
  by (auto simp: resolveAccount_def split: option.splits sum.splits)

lemma loadStores_try_failure:
  assumes "fst (loadStores_try I st) = Inl e"
  shows "stores (snd (loadStores_try I st)) = stores st
       \<and> effects (snd (loadStores_try I st)) =
           effects st @ (case resolveAccount I st of Inl _ \<Rightarrow> [] | Inr _ \<Rightarrow> [ResetIdTracker])"
proof (cases "resolveAccount I st")
  case (Inl e')
  then show ?thesis by (simp add: loadStores_try_def)
next
  case (Inr r)
  obtain a st1 where r: "r = (a, st1)" by (cases r)
  from Inr r resolveAccount_stores have s: "stores st1 = stores st" "effects st1 = effects st"
    by blast+
  show ?thesis
  proof (cases a)
    case None
    with Inr r assms show ?thesis by (simp add: loadStores_try_def)
  next
    case (Some account)
    with Inr r assms s show ?thesis
      by (cases "fetchAndProcess I account") (simp_all add: loadStores_try_def Let_def emit_def)
  qed
qed

text \<open>
  Where the exceptions of a cycle come from: the account lookup, or one of the steps from
  the fetches to the conversions; among them a rejected fetch, and a conversion that
  rejects while the records before it convert.
\<close>

lemma loadStores_try_raises:
  "(fst (loadStores_try I st) = Inl e) =
     (resolveAccount I st = Inl e
      \<or> (\<exists>account st1. resolveAccount I st = Inr (Some account, st1)
                         \<and> fetchAndProcess I account = Inl e))"
proof (cases "resolveAccount I st")
  case (Inl e')
  then show ?thesis by (simp add: loadStores_try_def)
next
  case (Inr r)
  obtain a st1 where r: "r = (a, st1)" by (cases r)
  show ?thesis
  proof (cases a)
    case None
    with Inr r show ?thesis by (simp add: loadStores_try_def)
  next
    case (Some account)
    with Inr r show ?thesis
      by (cases "fetchAndProcess I account") (simp_all add: loadStores_try_def Let_def)
  qed
qed

lemma rejected_fetch_raises:
  "getDefinitions I = Inr defs \<Longrightarrow> loadNewItems I account = Inr u \<Longrightarrow>
   getStores I account = Inl e \<Longrightarrow> fetchAndProcess I account = Inl e"
  by (simp add: fetchAndProcess_def)

lemma compact_keeps: "Some x \<in> set ps \<Longrightarrow> x \<in> set (compact ps)"
  by (induction ps rule: compact.induct) auto

lemma promiseAll_rejects: "Inl e \<in> set qs \<Longrightarrow> \<exists>e'. promiseAll qs = Inl e'"
proof (induction qs rule: promiseAll.induct)
  case 1
  then show ?case by simp
next
  case (2 e0 ps)
  show ?case by simp
next
  case (3 v ps)
  then obtain e' where "promiseAll ps = Inl e'" by auto
  then show ?case by simp
qed

lemma rejected_conversion_raises:
  "Some (Inl e) \<in> set ps \<Longrightarrow> \<exists>e'. promiseAll (compact ps) = Inl e'"
  by (rule promiseAll_rejects) (rule compact_keeps)

text \<open>
  Claim C1. When the body of the \<open>try\<close> raises \<open>e\<close> (a rejected fetch, a TypeError, a
  failed conversion), the cycle resolves with \<open>undefined\<close>, the published store set is
  the one from before, and after the console and telemetry reports exactly one of the two
  happens: \<open>showNotification\<close> when the published store set is not empty,
  \<open>dispatch(error(e))\<close> when it is empty, as it is as long as no cycle has published one.
  The state is the one the \<open>catch\<close> reads; cycles that overlap are not modelled.
\<close>

theorem load_failure_is_swallowed:
  assumes "fst (loadStores_try I st) = Inl e"
  shows "fst (loadStores I st) = None
       \<and> stores (snd (loadStores I st)) = stores st
       \<and> effects (snd (loadStores I st)) =
           effects st @ (case resolveAccount I st of Inl _ \<Rightarrow> [] | Inr _ \<Rightarrow> [ResetIdTracker])
           @ [ConsoleError e, ReportException e,
              if stores st \<noteq> [] then ShowNotification e else DispatchError e]"
proof -
  obtain st' where t: "loadStores_try I st = (Inl e, st')"
    using assms by (cases "loadStores_try I st") simp
  from loadStores_try_failure [OF assms] t
  have s: "stores st' = stores st"
    and f: "effects st' = effects st @ (case resolveAccount I st of Inl _ \<Rightarrow> [] | Inr _ \<Rightarrow> [ResetIdTracker])"
    by simp_all
  show ?thesis
    by (simp add: loadStores_def t loadStores_catch_def Let_def emit_def s f)
qed

lemma fetchRejects_try: "fst (loadStores_try fetchRejects st) = Inl (Rejected 503)"
  if "currentAccount st = Some 1"
  using that
  by (simp add: loadStores_try_def resolveAccount_def fetchAndProcess_def fetchRejects_def
      exampleCollaborators_def Let_def)

theorem load_failure_is_swallowed_witness:
  "fst (loadStores fetchRejects loadedBefore) = None
   \<and> stores (snd (loadStores fetchRejects loadedBefore)) = stores loadedBefore
   \<and> effects (snd (loadStores fetchRejects loadedBefore)) =
       [ResetIdTracker, ConsoleError (Rejected 503), ReportException (Rejected 503),
        ShowNotification (Rejected 503)]
   \<and> fst (loadStores fetchRejects signedIn) = None
   \<and> effects (snd (loadStores fetchRejects signedIn)) =
       [ResetIdTracker, ConsoleError (Rejected 503), ReportException (Rejected 503),
        DispatchError (Rejected 503)]"
proof -
  have a: "fst (loadStores_try fetchRejects loadedBefore) = Inl (Rejected 503)"
    by (rule fetchRejects_try) (simp add: loadedBefore_def)
  have b: "fst (loadStores_try fetchRejects signedIn) = Inl (Rejected 503)"
    by (rule fetchRejects_try) (simp add: signedIn_def)
  have r1: "resolveAccount fetchRejects loadedBefore = Inr (Some 1, loadedBefore)"
    by (simp add: resolveAccount_def loadedBefore_def)
  have r2: "resolveAccount fetchRejects signedIn = Inr (Some 1, signedIn)"
    by (simp add: resolveAccount_def signedIn_def)
  from load_failure_is_swallowed [OF a] load_failure_is_swallowed [OF b]
  show ?thesis
    by (simp add: r1 r2) (simp add: loadedBefore_def signedIn_def)
qed

text \<open>
  Claim C6 does not hold of the code. \<open>processStore\<close> returns \<open>undefined\<close> for a \<open>null\<close>
  record and \<open>_.compact\<close> drops it (\<open>processStore_null\<close>, \<open>null_dropped_after_map\<close>
  below), but \<open>findLastPlayedDate\<close> runs first and reads \<open>rawStore.id\<close> of every entry:
  a cycle whose raw list has a \<open>null\<close> entry raises a TypeError before \<open>processStore\<close> is
  called, and ends in the \<open>catch\<close> with nothing published.
\<close>

theorem null_record_fails_cycle:
  assumes "currentAccount st = Some account"
    and "getDefinitions I = Inr defs"
    and "loadNewItems I account = Inr u"
    and "getStores I account = Inr rawStores"
    and "None \<in> set rawStores"
  shows "fst (loadStores I st) = None
       \<and> stores (snd (loadStores I st)) = stores st
       \<and> effects (snd (loadStores I st)) =
           effects st @ [ResetIdTracker, ConsoleError TypeError, ReportException TypeError,
              if stores st \<noteq> [] then ShowNotification TypeError else DispatchError TypeError]"
proof -
  have "findLastPlayedDate rawStores = Inl TypeError"
    using assms(5) by (simp add: findLastPlayedDate_def reduce_lastPlayed_null)
  with assms have "fetchAndProcess I account = Inl TypeError"
    by (simp add: fetchAndProcess_def)
  with assms(1) show ?thesis
    by (simp add: loadStores_def loadStores_try_def resolveAccount_def Let_def
        loadStores_catch_def emit_def)
qed

theorem null_record_fails_cycle_witness:
  "fst (loadStores nullRecord signedIn) = None
   \<and> stores (snd (loadStores nullRecord signedIn)) = []
   \<and> effects (snd (loadStores nullRecord signedIn)) =
       [ResetIdTracker, ConsoleError TypeError, ReportException TypeError, DispatchError TypeError]"
proof -
  have a: "currentAccount signedIn = Some 1" by (simp add: signedIn_def)
  have b: "getDefinitions nullRecord = Inr 0" by (simp add: nullRecord_def exampleCollaborators_def)
  have c: "loadNewItems nullRecord 1 = Inr ()" by (simp add: nullRecord_def exampleCollaborators_def)
  have d: "getStores nullRecord 1 = Inr [None, Some vaultRaw]"
    by (simp add: nullRecord_def exampleCollaborators_def)
  have e: "None \<in> set [None, Some vaultRaw]" by simp
  from null_record_fails_cycle [OF a b c d e] show ?thesis
    by (simp add: signedIn_def)
qed

lemma processStore_null: "processStore I None defs catalog cur d = Inr (None, cur)"
  by (simp add: processStore_def)

lemma null_dropped_after_map:
  "mapProcessStore I rs defs catalog cur d = Inr ps \<Longrightarrow>
   length (compact ps) = length (filter (\<lambda>r. r \<noteq> None) rs)"
proof (induction rs arbitrary: cur ps)
  case Nil
  then show ?case by simp
next
  case (Cons r rs)
  then show ?case
    by (cases r)
       (auto simp: processStore_def split: sum.splits prod.splits if_splits)
qed

section \<open>The stores stream\<close>

lemma consistent_init: "consistent StoreService"
  by (simp add: consistent_def StoreService_def)

lemma fresh_mono: "fresh n p \<Longrightarrow> n \<le> m \<Longrightarrow> fresh m p"
  unfolding fresh_def by (meson le_trans less_le_trans)

lemma consistent_switchMapLoad:
  assumes c: "consistent s" and "connected s"
  shows "consistent (switchMapLoad a s)"
proof -
  from c have f: "\<forall>p \<in> set (promises s). fresh (length (triggers s)) p"
    by (simp add: consistent_def)
  then have f': "\<forall>p \<in> set (promises s). fresh (Suc (length (triggers s))) p"
    using fresh_mono by (meson le_SucI order_refl)
  from f have le: "\<forall>p \<in> set (promises s). calledAt p \<le> length (triggers s)"
    by (simp add: fresh_def)
  from c have r: "\<forall>v. replay s = Some v \<longrightarrow> fst v < Suc (length (triggers s))"
    by (simp add: consistent_def less_SucI)
  from assms(2) f' le r show ?thesis
    by (simp add: consistent_def switchMapLoad_def)
qed

lemma consistent_accountStream:
  "consistent s \<Longrightarrow> consistent (s\<lparr>accountStream := a\<rparr>)"
  by (simp add: consistent_def)

lemma consistent_connect_flag:
  "consistent s \<Longrightarrow> consistent (s\<lparr>connected := True, connections := n\<rparr>)"
  by (simp add: consistent_def)

lemma consistent_getStoresStream: "consistent s \<Longrightarrow> consistent (getStoresStream a s)"
proof -
  assume c: "consistent s"
  have c2: "consistent (accountStream_next a s)"
    using consistent_accountStream [OF c, of "Some a"]
    by (simp add: accountStream_next_def Let_def consistent_switchMapLoad)
  show ?thesis
  proof (cases "connected (accountStream_next a s)")
    case True
    with c2 show ?thesis by (simp add: getStoresStream_def storesStream_connect_def)
  next
    case False
    let ?s = "(accountStream_next a s)\<lparr>connected := True, connections := connections (accountStream_next a s) + 1\<rparr>"
    from c2 have "consistent ?s" by (rule consistent_connect_flag)
    then have "consistent (switchMapLoad (accountStream (accountStream_next a s)) ?s)"
      by (rule consistent_switchMapLoad) simp
    with False show ?thesis by (simp add: getStoresStream_def storesStream_connect_def)
  qed
qed

lemma consistent_take2:
  assumes c: "consistent s" and i: "inner s = None"
  shows "consistent (take2_toPromise s)"
proof -
  have "fresh (length (triggers s))
          \<lparr>calledAt = length (triggers s), emittedBefore = emitted s, cached = replay s,
            taken = (case replay s of None \<Rightarrow> 0 | Some v \<Rightarrow> 1), resolved = None\<rparr>"
    using c by (simp add: fresh_def consistent_def)
  with c i show ?thesis
    by (simp add: consistent_def take2_toPromise_def)
qed

lemma consistent_reloadStores: "consistent s \<Longrightarrow> consistent (reloadStores s)"
proof -
  assume c: "consistent s"
  let ?p = "\<lparr>calledAt = length (triggers s), emittedBefore = emitted s, cached = replay s,
            taken = (case replay s of None \<Rightarrow> 0 | Some v \<Rightarrow> (1::nat)), resolved = None\<rparr>"
  have fp: "fresh (length (triggers s)) ?p"
    using c by (simp add: fresh_def consistent_def)
  show ?thesis
  proof (cases "connected s")
    case True
    let ?s0 = "s\<lparr>inner := None\<rparr>"
    have c0: "consistent ?s0" using c by (simp add: consistent_def)
    have "consistent (take2_toPromise ?s0)" by (rule consistent_take2 [OF c0]) simp
    then have "consistent (switchMapLoad (accountStream s) (take2_toPromise ?s0))"
      by (rule consistent_switchMapLoad) (simp add: take2_toPromise_def True)
    moreover have "switchMapLoad (accountStream s) (take2_toPromise ?s0) = reloadStores s"
      using True
      by (simp add: reloadStores_def forceReloadTrigger_next_def take2_toPromise_def switchMapLoad_def)
    ultimately show ?thesis by simp
  next
    case False
    with c have "inner s = None" by (auto simp: consistent_def)
    from consistent_take2 [OF c this] False show ?thesis
      by (simp add: reloadStores_def forceReloadTrigger_next_def take2_toPromise_def)
  qed
qed

lemma fresh_deliver:
  "fresh n p \<Longrightarrow> calledAt p \<le> k \<Longrightarrow> k < n \<Longrightarrow> fresh n (deliver (k, r) p)"
  by (cases "resolved p") (simp_all add: fresh_def deliver_def)

lemma consistent_resolves: "consistent s \<Longrightarrow> consistent (resolves k r s)"
proof (cases "inner s = Some k")
  case False
  assume "consistent s"
  with False show ?thesis by (simp add: resolves_def)
next
  case True
  assume c: "consistent s"
  with True have k: "k < length (triggers s)" and le: "\<forall>p \<in> set (promises s). calledAt p \<le> k"
    by (simp_all add: consistent_def)
  from c have f: "\<forall>p \<in> set (promises s). fresh (length (triggers s)) p"
    by (simp add: consistent_def)
  have "\<forall>p \<in> set (promises s). fresh (length (triggers s)) (deliver (k, r) p)"
    using f le k fresh_deliver by blast
  with True k show ?thesis
    by (simp add: consistent_def resolves_def)
qed

lemma consistent_step: "consistent s \<Longrightarrow> consistent (step ev s)"
  by (cases ev) (simp_all add: consistent_getStoresStream consistent_reloadStores consistent_resolves)

lemma consistent_fold: "consistent s \<Longrightarrow> consistent (fold step evs s)"
  by (induction evs arbitrary: s) (simp_all add: consistent_step)

lemma consistent_run: "consistent (run evs)"
  by (simp add: run_def consistent_fold consistent_init)

lemma resolved_is_fresh:
  "\<forall>p \<in> set (promises (run evs)). \<forall>v. resolved p = Some v \<longrightarrow>
      calledAt p \<le> fst v \<and> fst v < length (triggers (run evs)) \<and> cached p \<noteq> Some v"
proof (intro ballI allI impI)
  fix p v
  assume p: "p \<in> set (promises (run evs))" and r: "resolved p = Some v"
  from consistent_run [of evs] p have f: "fresh (length (triggers (run evs))) p"
    by (simp add: consistent_def)
  with r have a: "calledAt p \<le> fst v" and b: "fst v < length (triggers (run evs))"
    by (simp_all add: fresh_def)
  have "cached p \<noteq> Some v"
  proof
    assume "cached p = Some v"
    with f have "fst v < calledAt p" by (simp add: fresh_def)
    with a show False by simp
  qed
  with a b show "calledAt p \<le> fst v \<and> fst v < length (triggers (run evs)) \<and> cached p \<noteq> Some v"
    by simp
qed

lemma counting_deliver: "counting n p \<Longrightarrow> counting (Suc n) (deliver v p)"
  by (cases "resolved p") (auto simp: counting_def deliver_def)

lemma counted_switchMapLoad: "counted_all s \<Longrightarrow> counted_all (switchMapLoad a s)"
  by (simp add: counted_all_def switchMapLoad_def)

lemma counted_getStoresStream: "counted_all s \<Longrightarrow> counted_all (getStoresStream a s)"
  by (simp add: counted_all_def getStoresStream_def storesStream_connect_def
      accountStream_next_def switchMapLoad_def Let_def)

lemma counted_reloadStores: "counted_all s \<Longrightarrow> counted_all (reloadStores s)"
  by (cases "replay s")
     (simp_all add: counted_all_def reloadStores_def forceReloadTrigger_next_def
      take2_toPromise_def switchMapLoad_def counting_def)

lemma counted_resolves: "counted_all s \<Longrightarrow> counted_all (resolves k r s)"
  by (simp add: counted_all_def resolves_def counting_deliver)

lemma counted_step: "counted_all s \<Longrightarrow> counted_all (step ev s)"
  by (cases ev) (simp_all add: counted_getStoresStream counted_reloadStores counted_resolves)

lemma counted_fold: "counted_all s \<Longrightarrow> counted_all (fold step evs s)"
  by (induction evs arbitrary: s) (simp_all add: counted_step)

lemma counted_init: "counted_all StoreService"
  by (simp add: counted_all_def StoreService_def)

lemma counted_run: "counted_all (run evs)"
  by (simp add: run_def counted_fold counted_init)

lemma resolved_when:
  "\<forall>p \<in> set (promises (run evs)).
      (resolved p \<noteq> None) =
        (2 \<le> (if cached p = None then 0 else 1) + (emitted (run evs) - emittedBefore p))"
proof
  fix p
  assume "p \<in> set (promises (run evs))"
  with counted_run [of evs] have "counting (emitted (run evs)) p"
    by (simp add: counted_all_def)
  then show "(resolved p \<noteq> None) =
        (2 \<le> (if cached p = None then 0 else 1) + (emitted (run evs) - emittedBefore p))"
    by (auto simp: counting_def)
qed

lemma getStoresStream_step:
  "triggers (getStoresStream a s) = triggers s @ [Some a]
   \<and> connected (getStoresStream a s)
   \<and> connections (getStoresStream a s) = (if connected s then connections s else connections s + 1)
   \<and> accountStream (getStoresStream a s) = Some a"
  by (simp add: getStoresStream_def storesStream_connect_def accountStream_next_def
      switchMapLoad_def Let_def)

lemma fold_getStoresStream:
  "triggers (fold getStoresStream accounts s) = triggers s @ map Some accounts
   \<and> connections (fold getStoresStream accounts s) =
       (if connected s \<or> accounts = [] then connections s else connections s + 1)
   \<and> connected (fold getStoresStream accounts s) = (connected s \<or> accounts \<noteq> [])"
proof (induction accounts arbitrary: s)
  case Nil
  show ?case by simp
next
  case (Cons a as)
  show ?case
    using getStoresStream_step [of a s] by (simp add: Cons.IH)
qed

text \<open>
  Claim C8. Every call of \<open>getStoresStream\<close>, in any state of the service, starts exactly
  one run of \<open>loadStores\<close>, triggered by the account of the call, and connects the stream
  only when it is not connected yet. So the calls with accounts \<open>A1, A2, ...\<close> made on a
  new service start one run per call, in the order of the calls, whether or not accounts
  repeat, and the stream is connected once, by the first call.
\<close>

theorem one_run_per_subscribe:
  "triggers (getStoresStream account s) = triggers s @ [Some account]
   \<and> connections (getStoresStream account s) =
       (if connected s then connections s else connections s + 1)
   \<and> triggers (fold getStoresStream accounts StoreService) = map Some accounts
   \<and> connections (fold getStoresStream accounts StoreService) = (if accounts = [] then 0 else 1)"
  using getStoresStream_step [of account s] fold_getStoresStream [of accounts StoreService]
  by (simp add: StoreService_def)

theorem one_run_per_subscribe_witness:
  "triggers (fold getStoresStream [7, 7, 8] StoreService) = [Some 7, Some 7, Some 8]
   \<and> connections (fold getStoresStream [7, 7, 8] StoreService) = 1"
  using one_run_per_subscribe [of 7 StoreService "[7, 7, 8]"] by simp

lemma promises_getStoresStream: "promises (getStoresStream a s) = promises s"
  by (simp add: getStoresStream_def storesStream_connect_def accountStream_next_def
      switchMapLoad_def Let_def)

lemma promises_reloadStores:
  "promises (reloadStores s) =
     promises s @ [\<lparr>calledAt = length (triggers s), emittedBefore = emitted s, cached = replay s,
                     taken = (case replay s of None \<Rightarrow> 0 | Some v \<Rightarrow> 1), resolved = None\<rparr>]"
  by (simp add: reloadStores_def forceReloadTrigger_next_def take2_toPromise_def switchMapLoad_def)

lemma resolved_deliver:
  "resolved (deliver v p) = Some w \<Longrightarrow> resolved p = Some w \<or> w = v"
  by (cases "resolved p") (auto simp: deliver_def split: if_splits)

lemma step_promise:
  assumes n: "n < length (promises s)"
  shows "n < length (promises (step ev s))
       \<and> (resolved (promises (step ev s) ! n) = Some (k, r) \<longrightarrow>
            resolved (promises s ! n) = Some (k, r) \<or> ev = Resolves k r)"
proof (cases ev)
  case (GetStoresStream a)
  with n show ?thesis by (simp add: promises_getStoresStream)
next
  case ReloadStores
  with n show ?thesis by (simp add: promises_reloadStores nth_append)
next
  case (Resolves k' r')
  show ?thesis
  proof (cases "inner s = Some k'")
    case False
    with Resolves n show ?thesis by (simp add: resolves_def)
  next
    case True
    with Resolves n show ?thesis
      using resolved_deliver [of "(k', r')" "promises s ! n" "(k, r)"]
      by (auto simp: resolves_def)
  qed
qed

lemma resolved_from_events:
  "n < length (promises s) \<Longrightarrow>
   resolved (promises (fold step evs s) ! n) = Some (k, r) \<Longrightarrow>
   resolved (promises s ! n) = Some (k, r) \<or> Resolves k r \<in> set evs"
proof (induction evs arbitrary: s)
  case Nil
  then show ?case by simp
next
  case (Cons ev evs)
  from step_promise [OF Cons.prems(1), of ev k r]
  have n: "n < length (promises (step ev s))"
    and c: "resolved (promises (step ev s) ! n) = Some (k, r) \<longrightarrow>
            resolved (promises s ! n) = Some (k, r) \<or> ev = Resolves k r"
    by simp_all
  from Cons.prems(2) have "resolved (promises (fold step evs (step ev s)) ! n) = Some (k, r)"
    by simp
  from Cons.IH [OF n this] c show ?case by auto
qed

lemma run_append: "run (pre @ ev # post) = fold step post (step ev (run pre))"
  by (simp add: run_def)

lemma resolved_after_call:
  assumes "resolved (promises (run (pre @ ReloadStores # post)) ! length (promises (run pre)))
             = Some (k, r)"
  shows "Resolves k r \<in> set post"
proof -
  let ?s = "step ReloadStores (run pre)"
  let ?n = "length (promises (run pre))"
  have n: "?n < length (promises ?s)" by (simp add: promises_reloadStores)
  have u: "resolved (promises ?s ! ?n) = None" by (simp add: promises_reloadStores)
  from assms have "resolved (promises (fold step post ?s) ! ?n) = Some (k, r)"
    by (simp only: run_append)
  from resolved_from_events [OF n this] u show ?thesis by simp
qed

lemma reload_own_result:
  assumes "connected s"
  shows "resolved (last (promises (resolves (length (triggers s)) r (reloadStores s))))
           = (if replay s = None then None else Some (length (triggers s), r))"
  using assms
  by (cases "replay s")
     (simp_all add: reloadStores_def forceReloadTrigger_next_def take2_toPromise_def
      switchMapLoad_def resolves_def deliver_def)

lemmas service_functions =
  run_def getStoresStream_def storesStream_connect_def accountStream_next_def
  switchMapLoad_def Let_def StoreService_def reloadStores_def forceReloadTrigger_next_def
  take2_toPromise_def resolves_def deliver_def

lemma resolved_is_result:
  "p \<in> set (promises (fold step evs s)) \<Longrightarrow> resolved p = Some (k, r) \<Longrightarrow>
   (\<exists>q \<in> set (promises s). resolved q = Some (k, r)) \<or> Resolves k r \<in> set evs"
proof -
  assume "p \<in> set (promises (fold step evs s))" and r: "resolved p = Some (k, r)"
  then obtain n where n: "n < length (promises (fold step evs s))"
    and p: "promises (fold step evs s) ! n = p" by (auto simp: in_set_conv_nth)
  show ?thesis
    using n p r
  proof (induction evs arbitrary: s)
    case Nil
    then show ?case by auto
  next
    case (Cons ev evs)
    from Cons.prems have
      "(\<exists>q \<in> set (promises (step ev s)). resolved q = Some (k, r)) \<or> Resolves k r \<in> set evs"
      by (intro Cons.IH) simp_all
    moreover have "\<exists>q \<in> set (promises s). resolved q = Some (k, r) \<or> ev = Resolves k r"
      if q: "q \<in> set (promises (step ev s))" "resolved q = Some (k, r)" for q
    proof -
      from q obtain m where m: "m < length (promises (step ev s))"
        and qm: "promises (step ev s) ! m = q" by (auto simp: in_set_conv_nth)
      show ?thesis
      proof (cases "m < length (promises s)")
        case True
        from step_promise [OF True, of ev k r] qm q(2)
        have "resolved (promises s ! m) = Some (k, r) \<or> ev = Resolves k r" by simp
        with True show ?thesis by (metis nth_mem)
      next
        case False
        have False
        proof (cases ev)
          case (GetStoresStream a)
          with m False show False by (simp add: promises_getStoresStream)
        next
          case ReloadStores
          with m False have "m = length (promises s)"
            by (simp add: promises_reloadStores)
          with ReloadStores qm have "resolved q = None"
            by (auto simp: promises_reloadStores)
          with q(2) show False by simp
        next
          case (Resolves k' r')
          with m False show False by (simp add: resolves_def split: if_splits)
        qed
        then show ?thesis ..
      qed
    qed
    ultimately show ?case by auto
  qed
qed

text \<open>
  A reload after the first result has arrived: a value is buffered at the call, and the
  promise resolves with the next result, here \<open>undefined\<close>.
\<close>

lemma exampleTrace_promises:
  "promises (run exampleTrace) =
     [\<lparr>calledAt = 1, emittedBefore = 1, cached = Some (0, Some []), taken = 2,
       resolved = Some (1, None)\<rparr>]"
  by (simp add: exampleTrace_def service_functions)

text \<open>
  Claim C7 does not hold of the code. The comment at lines 81 to 85 takes it that the
  replay subject hands over a value at once, so that the second of the two values is the
  refreshed one. When \<open>reloadStores\<close> is called before the stream has emitted anything,
  nothing is handed over. In \<open>earlyReloadTrace\<close> the reload comes while the first load is
  running: the run of the first load is switched away from and its result dropped, the
  run started by the reload resolves with a store set, and the promise is still pending:
  that result is only the first of its two values, no run is left, and the stream holds
  the result that the promise was to resolve with. Only a later load resolves the
  promise, with the result of that load.
\<close>

theorem early_reload_stays_pending:
  "promises (run earlyReloadTrace) =
     [\<lparr>calledAt = 1, emittedBefore = 0, cached = None, taken = 1, resolved = None\<rparr>]
   \<and> triggers (run earlyReloadTrace) = [Some 1, Some 1]
   \<and> inner (run earlyReloadTrace) = None
   \<and> replay (run earlyReloadTrace) = Some (1, Some [])
   \<and> map resolved (promises (run (earlyReloadTrace @ laterLoad)))
       = [Some (2, Some [newStore ''vault'' True False])]"
  by (simp add: earlyReloadTrace_def laterLoad_def service_functions)

text \<open>
  What holds in every history, for every promise that \<open>reloadStores\<close> has returned: it is
  resolved exactly when two values have reached it, the value buffered at the call
  counting as the first; and the value it resolves with is the result that some run
  resolved with in the history, a run started by the call or after it, and is not the
  value that was buffered at the call. By \<open>resolved_after_call\<close> that run resolved after
  the call, and by \<open>reload_own_result\<close> a reload on a connected stream with a buffered
  value resolves with the result of the run it starts.
\<close>

lemma reload_promise_safety:
  "\<forall>p \<in> set (promises (run evs)).
      (resolved p \<noteq> None) =
        (2 \<le> (if cached p = None then 0 else 1) + (emitted (run evs) - emittedBefore p))
      \<and> (\<forall>v. resolved p = Some v \<longrightarrow>
            Resolves (fst v) (snd v) \<in> set evs
            \<and> calledAt p \<le> fst v \<and> fst v < length (triggers (run evs)) \<and> cached p \<noteq> Some v)"
proof
  fix p
  assume p: "p \<in> set (promises (run evs))"
  have "Resolves (fst v) (snd v) \<in> set evs" if "resolved p = Some v" for v
    using resolved_is_result [of p evs StoreService "fst v" "snd v"] p that
    by (simp add: run_def) (simp add: StoreService_def)
  with p resolved_is_fresh [of evs] resolved_when [of evs]
  show "(resolved p \<noteq> None) =
        (2 \<le> (if cached p = None then 0 else 1) + (emitted (run evs) - emittedBefore p))
      \<and> (\<forall>v. resolved p = Some v \<longrightarrow>
            Resolves (fst v) (snd v) \<in> set evs
            \<and> calledAt p \<le> fst v \<and> fst v < length (triggers (run evs)) \<and> cached p \<noteq> Some v)"
    by blast
qed

end
